theory Spec2Isabelle
  imports Main "HOL-Library.Char_ord" "HOL-Library.List_Lexorder"
begin

section \<open>Strings\<close>

text \<open>
  Python strings are modelled as \<^typ>\<open>string\<close>, one \<^typ>\<open>char\<close> per code point below 256.
  \<open>str.strip()\<close> and the regular-expression class \<open>\s\<close> use the same notion of
  whitespace (\<open>str.isspace\<close>): tab, line feed, vertical tab, form feed, carriage return,
  the separators 0x1C to 0x1F, space, and in Latin-1 NEL (0x85) and NBSP (0xA0).
\<close>

definition is_space :: "char \<Rightarrow> bool" where
  "is_space c =
     (let n = (of_char c :: nat)
      in (9 \<le> n \<and> n \<le> 13) \<or> (28 \<le> n \<and> n \<le> 32) \<or> n = 133 \<or> n = 160)"

text \<open>\<open>s.strip()\<close>: whitespace removed at both ends.\<close>

definition strip :: "string \<Rightarrow> string" where
  "strip s = rev (dropWhile is_space (rev (dropWhile is_space s)))"

text \<open>\<open>s.lower()\<close> on the ASCII letters.\<close>

definition lower_char :: "char \<Rightarrow> char" where
  "lower_char c =
     (let n = (of_char c :: nat) in if 65 \<le> n \<and> n \<le> 90 then char_of (n + 32) else c)"

definition lower :: "string \<Rightarrow> string" where
  "lower s = map lower_char s"

text \<open>\<open>s.endswith(suffix)\<close>.\<close>

definition endswith :: "string \<Rightarrow> string \<Rightarrow> bool" where
  "endswith s suffix = (length suffix \<le> length s \<and> drop (length s - length suffix) s = suffix)"

text \<open>
  The characters that end a flag token in the pattern \<open>--[^,|\s]+\<close>: comma, pipe and
  whitespace.
\<close>

definition is_sep :: "char \<Rightarrow> bool" where
  "is_sep c = (c = CHR '','' \<or> c = CHR ''|'' \<or> is_space c)"

text \<open>
  \<open>re.findall(r'--[^,|\s]+', raw_key)\<close>: the leftmost, non-overlapping, greedy matches,
  scanning from the left. At a position that starts with two dashes followed by at least
  one non-separator character, the match is the two dashes with the longest run of
  non-separator characters; the scan goes on after the match. At any other position it
  moves one character on.
\<close>

function findall_flags :: "string \<Rightarrow> string list" where
  "findall_flags [] = []"
| "findall_flags (c # cs) =
     (if c = CHR ''-'' \<and> cs \<noteq> [] \<and> hd cs = CHR ''-''
         \<and> takeWhile (\<lambda>x. \<not> is_sep x) (tl cs) \<noteq> []
      then (c # hd cs # takeWhile (\<lambda>x. \<not> is_sep x) (tl cs))
             # findall_flags (dropWhile (\<lambda>x. \<not> is_sep x) (tl cs))
      else findall_flags cs)"
  by pat_completeness auto
termination
proof (relation "measure length")
  show "wf (measure length)" by simp
next
  fix c :: char and cs :: string
  have "length (dropWhile (\<lambda>x. \<not> is_sep x) (tl cs)) \<le> length (tl cs)"
    by (rule length_dropWhile_le)
  then show "(dropWhile (\<lambda>x. \<not> is_sep x) (tl cs), c # cs) \<in> measure length"
    by simp
next
  fix c :: char and cs :: string
  show "(cs, c # cs) \<in> measure length" by simp
qed

text \<open>
  \<open>re.split(r'[,|]', raw_key)\<close>: the pieces between the commas and pipes, empty pieces
  included.
\<close>

fun split_sep :: "string \<Rightarrow> string list" where
  "split_sep [] = [[]]"
| "split_sep (c # cs) =
     (if c = CHR '','' \<or> c = CHR ''|'' then [] # split_sep cs
      else (case split_sep cs of [] \<Rightarrow> [[c]] | p # ps \<Rightarrow> (c # p) # ps))"

section \<open>Configuration values\<close>

text \<open>
  What \<open>yaml.safe_load\<close> returns: null, booleans, integers, strings, sequences and
  mappings. A mapping is an association list in insertion order, as a Python \<open>dict\<close> keeps
  it; its keys are strings (the configuration files key every mapping by strings, and
  \<open>expand_flag_keys\<close> turns any other key into its string first). \<open>copy.deepcopy\<close> is the
  identity on these values.
\<close>

datatype yval =
    YNull
  | YBool bool
  | YInt int
  | YStr string
  | YList "yval list"
  | YMap "(string \<times> yval) list"

type_synonym ydict = "(string \<times> yval) list"

text \<open>\<open>d.get(k)\<close>, \<open>d[k] = v\<close> (an existing key keeps its place, a new one goes last) and
  \<open>d.pop(k, None)\<close>.\<close>

definition dict_get :: "ydict \<Rightarrow> string \<Rightarrow> yval option" where
  "dict_get d k = map_of d k"

fun dict_set :: "ydict \<Rightarrow> string \<Rightarrow> yval \<Rightarrow> ydict" where
  "dict_set [] k v = [(k, v)]"
| "dict_set ((k', v') # d) k v = (if k' = k then (k, v) # d else (k', v') # dict_set d k v)"

definition dict_pop :: "ydict \<Rightarrow> string \<Rightarrow> ydict" where
  "dict_pop d k = filter (\<lambda>kv. fst kv \<noteq> k) d"

text \<open>Python truthiness, as \<open>x or default\<close> tests it.\<close>

fun truthy :: "yval \<Rightarrow> bool" where
  "truthy YNull = False"
| "truthy (YBool b) = b"
| "truthy (YInt i) = (i \<noteq> 0)"
| "truthy (YStr s) = (s \<noteq> [])"
| "truthy (YList xs) = (xs \<noteq> [])"
| "truthy (YMap m) = (m \<noteq> [])"

section \<open>Key expander and directive cleaner\<close>

text \<open>
  \<open>expand_flag_keys(raw_key, directive)\<close>. The source collects the keys in a \<open>set\<close> and
  returns \<open>list(keys)\<close>, whose order Python leaves open: it follows the hashes of the
  strings and can differ from one run to the next. The model returns the keys without
  repetition in one fixed order, that in which the source adds them to the set. This is a
  choice of the model, and it shows: the callers assign the keys in the order of the list,
  so the order decides where new keys are placed in the mapping that results, and with it
  the order in which a later merge meets them when that mapping is the overlay. Where a
  result is written out as a list in this theory, the order of its entries is the model's,
  one of those Python can produce. The general statements about \<open>expand_flag_keys\<close> are
  about the set of the keys and about the value found under a key, not about the order.
\<close>

definition nonempty_stripped :: "string list \<Rightarrow> string list" where
  "nonempty_stripped parts = filter (\<lambda>t. t \<noteq> []) (map strip parts)"

fun alias_strings :: "yval list \<Rightarrow> string list" where
  "alias_strings [] = []"
| "alias_strings (YStr s # xs) = s # alias_strings xs"
| "alias_strings (_ # xs) = alias_strings xs"

definition alias_keys :: "ydict \<Rightarrow> string \<Rightarrow> string list" where
  "alias_keys directive alias_field =
     (case dict_get directive alias_field of
        Some (YList aliases) \<Rightarrow> nonempty_stripped (alias_strings aliases)
      | _ \<Rightarrow> [])"

definition raw_key_tokens :: "string \<Rightarrow> string list" where
  "raw_key_tokens raw_key =
     (let keys = nonempty_stripped (findall_flags raw_key)
      in if keys = [] then nonempty_stripped (split_sep raw_key) else keys)"

definition expand_flag_keys :: "string \<Rightarrow> yval \<Rightarrow> string list" where
  "expand_flag_keys raw_key directive =
     remdups
       (raw_key_tokens raw_key @
        (case directive of
           YMap d \<Rightarrow> alias_keys d ''aliases'' @ alias_keys d ''variations''
         | _ \<Rightarrow> []))"

text \<open>\<open>clean_directive_config(directive)\<close>: the mapping without its alias metadata.\<close>

definition clean_directive_config :: "ydict \<Rightarrow> ydict" where
  "clean_directive_config directive =
     filter (\<lambda>kv. fst kv \<noteq> ''aliases'' \<and> fst kv \<noteq> ''variations'') directive"

section \<open>Exceptions\<close>

text \<open>
  The exceptions the engine can raise, as values; a function that can raise returns
  \<open>error + 'a\<close>, with \<open>Inl\<close> for the exception. \<open>OSError\<close> stands for the failures of
  opening a file other than its absence (a directory in the file's place, no permission).
  \<open>ValueError\<close> stands also for its subclass \<open>UnicodeDecodeError\<close>, which reading a file
  raises when its bytes are not UTF-8. \<open>OutOfFuel\<close> is not a Python exception: it is the
  outcome of the model's bounded recursion when its budget is too small (see
  \<open>load_profile_tree\<close>).
\<close>

datatype error =
    FileNotFoundError
  | YAMLError
  | ValueError
  | TypeError
  | AttributeError
  | OSError
  | OutOfFuel

section \<open>Config merger\<close>

text \<open>
  In \<open>merge_configs\<close> the object \<open>directives = result.setdefault('directives', {})\<close> is
  whatever the copy of \<open>base\<close> holds under that key, a mapping or not. On a value that is
  not a mapping, \<open>directives.pop(flag, None)\<close> raises \<open>AttributeError\<close> (\<open>TypeError\<close> on a
  list, whose \<open>pop\<close> takes one argument) and \<open>directives[key] = ...\<close> raises
  \<open>TypeError\<close>.
\<close>

definition directives_pop :: "yval \<Rightarrow> string \<Rightarrow> error + yval" where
  "directives_pop directives k =
     (case directives of
        YMap d \<Rightarrow> Inr (YMap (dict_pop d k))
      | YList xs \<Rightarrow> Inl TypeError
      | _ \<Rightarrow> Inl AttributeError)"

definition directives_setitem :: "yval \<Rightarrow> string \<Rightarrow> yval \<Rightarrow> error + yval" where
  "directives_setitem directives k v =
     (case directives of
        YMap d \<Rightarrow> Inr (YMap (dict_set d k v))
      | _ \<Rightarrow> Inl TypeError)"

text \<open>The two inner loops \<open>for actual_key in keys\<close>: removing and assigning.\<close>

fun pop_keys :: "yval \<Rightarrow> string list \<Rightarrow> error + yval" where
  "pop_keys directives [] = Inr directives"
| "pop_keys directives (k # ks) =
     (case directives_pop directives k of
        Inl e \<Rightarrow> Inl e
      | Inr directives' \<Rightarrow> pop_keys directives' ks)"

fun assign_keys :: "yval \<Rightarrow> string list \<Rightarrow> yval \<Rightarrow> error + yval" where
  "assign_keys directives [] v = Inr directives"
| "assign_keys directives (k # ks) v =
     (case directives_setitem directives k v of
        Inl e \<Rightarrow> Inl e
      | Inr directives' \<Rightarrow> assign_keys directives' ks v)"

text \<open>
  The body of the loop \<open>for flag, directive in directives_overlay.items()\<close>: a null
  directive removes the raw key and every expanded key, a mapping is cleaned and assigned
  under every expanded key, anything else is assigned as it is.
\<close>

definition merge_directive :: "yval \<Rightarrow> string \<times> yval \<Rightarrow> error + yval" where
  "merge_directive directives entry =
     (let flag = fst entry; directive = snd entry; keys = expand_flag_keys flag directive
      in case directive of
           YNull \<Rightarrow>
             (case directives_pop directives flag of
                Inl e \<Rightarrow> Inl e
              | Inr directives' \<Rightarrow> pop_keys directives' keys)
         | YMap body \<Rightarrow> assign_keys directives keys (YMap (clean_directive_config body))
         | _ \<Rightarrow> assign_keys directives keys directive)"

fun merge_directives :: "yval \<Rightarrow> ydict \<Rightarrow> error + yval" where
  "merge_directives directives [] = Inr directives"
| "merge_directives directives (entry # entries) =
     (case merge_directive directives entry of
        Inl e \<Rightarrow> Inl e
      | Inr directives' \<Rightarrow> merge_directives directives' entries)"

text \<open>
  The first half of \<open>merge_configs\<close>: when the overlay's \<open>directives\<close> is a mapping,
  \<open>setdefault\<close> adds an empty \<open>directives\<close> mapping to the result if it has none, and the
  loop updates the object stored there.
\<close>

definition merge_directives_into :: "ydict \<Rightarrow> ydict \<Rightarrow> error + ydict" where
  "merge_directives_into result overlay =
     (case dict_get overlay ''directives'' of
        Some (YMap directives_overlay) \<Rightarrow>
          (let result' = (case dict_get result ''directives'' of
                            None \<Rightarrow> result @ [(''directives'', YMap [])]
                          | Some v \<Rightarrow> result);
               directives = (case dict_get result ''directives'' of
                               None \<Rightarrow> YMap []
                             | Some v \<Rightarrow> v)
           in case merge_directives directives directives_overlay of
                Inl e \<Rightarrow> Inl e
              | Inr directives' \<Rightarrow> Inr (dict_set result' ''directives'' directives'))
      | _ \<Rightarrow> Inr result)"

text \<open>
  \<open>merge_configs(base, overlay)\<close>, with the second loop \<open>for key, value in overlay.items()\<close>
  as \<open>merge_items\<close>. Both arguments are mappings, as the signature says and as every call
  in the source passes them, so the two \<open>isinstance(overlay, dict)\<close> tests hold.
\<close>

fun merge_configs :: "ydict \<Rightarrow> ydict \<Rightarrow> error + ydict"
and merge_items :: "ydict \<Rightarrow> ydict \<Rightarrow> error + ydict" where
  "merge_configs base overlay =
     (case merge_directives_into base overlay of
        Inl e \<Rightarrow> Inl e
      | Inr result \<Rightarrow> merge_items result overlay)"
| "merge_items result [] = Inr result"
| "merge_items result ((key, v) # items) =
     (if key = ''directives'' then merge_items result items
      else case v of
        YNull \<Rightarrow> merge_items (dict_pop result key) items
      | YMap m \<Rightarrow>
          (case merge_configs
                  (case dict_get result key of Some (YMap existing) \<Rightarrow> existing | _ \<Rightarrow> []) m of
             Inl e \<Rightarrow> Inl e
           | Inr merged \<Rightarrow> merge_items (dict_set result key (YMap merged)) items)
      | _ \<Rightarrow> merge_items (dict_set result key v) items)"

section \<open>The file system\<close>

text \<open>
  \<open>pathlib\<close>, the operating system and the YAML parser are outside the repository; the
  engine sees them through the operations below, and every theorem holds for any
  behaviour of them. A path is a value of an ordered type \<open>'p\<close> (\<open>sorted\<close> compares
  paths). A directory's content is a finite tree: the entries \<open>iterdir()\<close> yields, each
  with its own content. The state is the one \<open>ensure_bundled_files()\<close> leaves.
\<close>

datatype 'p dtree = DTree (dtree_path: 'p) "'p dtree list"

text \<open>
  Opening and parsing a file gives the parsed document or fails in one of four ways:
  there is no such file (\<open>FileNotFoundError\<close>), the text is not YAML (\<open>yaml.YAMLError\<close>),
  the file cannot be opened (\<open>OSError\<close>), or its bytes are not UTF-8
  (\<open>UnicodeDecodeError\<close>, a \<open>ValueError\<close>).
\<close>

datatype read_error = NoSuchFile | Malformed | Unreadable | Undecodable

fun read_exception :: "read_error \<Rightarrow> error" where
  "read_exception NoSuchFile = FileNotFoundError"
| "read_exception Malformed = YAMLError"
| "read_exception Unreadable = OSError"
| "read_exception Undecodable = ValueError"

record 'p fsys =
  fs_resolve :: "'p \<Rightarrow> 'p"  \<comment> \<open>\<open>path.resolve()\<close>\<close>
  fs_exists :: "'p \<Rightarrow> bool"  \<comment> \<open>\<open>path.exists()\<close>\<close>
  fs_is_file :: "'p \<Rightarrow> bool"  \<comment> \<open>\<open>path.is_file()\<close>\<close>
  fs_is_dir :: "'p \<Rightarrow> bool"  \<comment> \<open>\<open>path.is_dir()\<close>\<close>
  fs_listing :: "'p \<Rightarrow> 'p dtree"  \<comment> \<open>\<open>path.iterdir()\<close>, recursively\<close>
  fs_suffix :: "'p \<Rightarrow> string"  \<comment> \<open>\<open>path.suffix\<close>\<close>
  fs_read_yaml :: "'p \<Rightarrow> read_error + yval"  \<comment> \<open>\<open>path.open\<close> and \<open>yaml.safe_load\<close>\<close>
  fs_profile_file :: "string \<Rightarrow> 'p"  \<comment> \<open>\<open>PROFILES_DIR / name\<close>\<close>
  fs_path :: "string \<Rightarrow> 'p"  \<comment> \<open>\<open>Path(ref)\<close>\<close>
  fs_is_absolute :: "'p \<Rightarrow> bool"  \<comment> \<open>\<open>path.is_absolute()\<close>\<close>
  fs_sibling :: "'p \<Rightarrow> 'p \<Rightarrow> 'p"  \<comment> \<open>\<open>base_path.parent / candidate\<close>\<close>
  fs_with_ext :: "'p \<Rightarrow> string \<Rightarrow> 'p"  \<comment> \<open>\<open>Path(str(candidate) + ext)\<close>\<close>

section \<open>Include resolver\<close>

definition resolve_profile_path :: "'p fsys \<Rightarrow> string \<Rightarrow> error + 'p" where
  "resolve_profile_path fs profile =
     (let name = strip profile
      in if name = [] then Inl ValueError
         else Inr (fs_resolve fs (fs_profile_file fs
                (if endswith (lower name) ''.yaml'' \<or> endswith (lower name) ''.yml''
                 then name else name @ ''.yaml''))))"

definition is_yaml_file :: "'p fsys \<Rightarrow> 'p \<Rightarrow> bool" where
  "is_yaml_file fs path =
     (fs_is_file fs path \<and> lower (fs_suffix fs path) \<in> {''.yaml'', ''.yml''})"

fun collect_yaml_files :: "('p::linorder) fsys \<Rightarrow> 'p dtree \<Rightarrow> 'p list" where
  "collect_yaml_files fs (DTree directory entries) =
     sort (concat (map
       (\<lambda>entry. if fs_is_dir fs (dtree_path entry) then collect_yaml_files fs entry
                else if is_yaml_file fs (dtree_path entry)
                     then [fs_resolve fs (dtree_path entry)]
                     else [])
       (sort_key dtree_path entries)))"

text \<open>The loop \<open>for ext in ('.yaml', '.yml')\<close> of \<open>resolve_include_targets\<close>.\<close>

fun probe_extensions :: "('p::linorder) fsys \<Rightarrow> 'p \<Rightarrow> string list \<Rightarrow> error + 'p list" where
  "probe_extensions fs candidate [] = Inl FileNotFoundError"
| "probe_extensions fs candidate (ext # exts) =
     (let extended = fs_with_ext fs candidate ext
      in if fs_exists fs extended \<and> fs_is_dir fs extended
         then Inr (collect_yaml_files fs (fs_listing fs extended))
         else if fs_exists fs extended \<and> is_yaml_file fs extended
         then Inr [extended]
         else probe_extensions fs candidate exts)"

definition resolve_include_targets ::
  "('p::linorder) fsys \<Rightarrow> string \<Rightarrow> 'p \<Rightarrow> error + 'p list" where
  "resolve_include_targets fs reference base_path =
     (let ref = strip reference
      in if ref = [] then Inl ValueError
         else
           let candidate =
                 (if fs_is_absolute fs (fs_path fs ref) then fs_path fs ref
                  else fs_resolve fs (fs_sibling fs base_path (fs_path fs ref)))
           in if fs_exists fs candidate \<and> fs_is_dir fs candidate
              then Inr (collect_yaml_files fs (fs_listing fs candidate))
              else if fs_exists fs candidate \<and> is_yaml_file fs candidate
              then Inr [candidate]
              else if lower (fs_suffix fs candidate) \<notin> {''.yaml'', ''.yml''}
              then probe_extensions fs candidate [''.yaml'', ''.yml'']
              else Inl FileNotFoundError)"

section \<open>Profile loader\<close>

text \<open>
  \<open>for include_ref in includes\<close> iterates whatever the document holds under \<open>includes\<close>
  (after \<open>or []\<close>): the elements of a sequence, the keys of a mapping, the characters of a
  string; a number or \<open>True\<close> is not iterable.
\<close>

definition includes_of :: "ydict \<Rightarrow> yval" where
  "includes_of data =
     (case dict_get data ''includes'' of
        None \<Rightarrow> YList []
      | Some v \<Rightarrow> if truthy v then v else YList [])"

fun iterate :: "yval \<Rightarrow> error + yval list" where
  "iterate (YList xs) = Inr xs"
| "iterate (YMap m) = Inr (map (\<lambda>kv. YStr (fst kv)) m)"
| "iterate (YStr s) = Inr (map (\<lambda>c. YStr [c]) s)"
| "iterate _ = Inl TypeError"

text \<open>
  \<open>load_profile_tree(profile_path, visited)\<close> returns the merged tree and mutates the
  shared set; the model returns the tree with the set. Its recursion is bounded by a
  budget of nested calls (\<open>OutOfFuel\<close> when the budget is used up); the two loops take the
  recursive call as the argument \<open>load\<close>.

  The inner loop \<open>for include_path in targets\<close>:
\<close>

fun load_targets ::
  "('p \<Rightarrow> 'p set \<Rightarrow> error + ydict \<times> 'p set) \<Rightarrow> 'p fsys \<Rightarrow> 'p list \<Rightarrow> ydict \<Rightarrow> 'p set
     \<Rightarrow> error + ydict \<times> 'p set" where
  "load_targets load fs [] combined visited = Inr (combined, visited)"
| "load_targets load fs (include_path # targets) combined visited =
     (if \<not> fs_exists fs include_path then Inl FileNotFoundError
      else case load include_path visited of
             Inl e \<Rightarrow> Inl e
           | Inr (tree, visited') \<Rightarrow>
               (case merge_configs combined tree of
                  Inl e \<Rightarrow> Inl e
                | Inr combined' \<Rightarrow> load_targets load fs targets combined' visited'))"

text \<open>The outer loop \<open>for include_ref in includes\<close>; an entry that is not a string, or is
  blank, is passed over.\<close>

fun load_includes ::
  "('p \<Rightarrow> 'p set \<Rightarrow> error + ydict \<times> 'p set) \<Rightarrow> ('p::linorder) fsys \<Rightarrow> 'p \<Rightarrow> yval list
     \<Rightarrow> ydict \<Rightarrow> 'p set \<Rightarrow> error + ydict \<times> 'p set" where
  "load_includes load fs resolved [] combined visited = Inr (combined, visited)"
| "load_includes load fs resolved (include_ref # includes) combined visited =
     (case include_ref of
        YStr s \<Rightarrow>
          (if strip s = [] then load_includes load fs resolved includes combined visited
           else case resolve_include_targets fs s resolved of
                  Inl e \<Rightarrow> Inl e
                | Inr targets \<Rightarrow>
                    (case load_targets load fs targets combined visited of
                       Inl e \<Rightarrow> Inl e
                     | Inr (combined', visited') \<Rightarrow>
                         load_includes load fs resolved includes combined' visited'))
      | _ \<Rightarrow> load_includes load fs resolved includes combined visited)"

text \<open>
  \<open>data = yaml.safe_load(f) or {}\<close>, then \<open>data.pop('includes', [])\<close>: on a document
  that is a non-empty sequence \<open>pop\<close> raises \<open>TypeError\<close> (a list's \<open>pop\<close> takes one
  argument), on a non-empty string, a number or \<open>True\<close> it raises \<open>AttributeError\<close>.
\<close>

fun load_profile_tree ::
  "nat \<Rightarrow> ('p::linorder) fsys \<Rightarrow> 'p \<Rightarrow> 'p set \<Rightarrow> error + ydict \<times> 'p set" where
  "load_profile_tree 0 fs profile_path visited = Inl OutOfFuel"
| "load_profile_tree (Suc n) fs profile_path visited =
     (let resolved = fs_resolve fs profile_path
      in if resolved \<in> visited then Inr ([], visited)
         else case fs_read_yaml fs resolved of
                Inl e \<Rightarrow> Inl (read_exception e)
              | Inr document \<Rightarrow>
                  (case (if truthy document then document else YMap []) of
                     YMap data \<Rightarrow>
                       (case iterate (includes_of data) of
                          Inl e \<Rightarrow> Inl e
                        | Inr includes \<Rightarrow>
                            (case load_includes (load_profile_tree n fs) fs resolved includes []
                                    (insert resolved visited) of
                               Inl e \<Rightarrow> Inl e
                             | Inr (combined, visited') \<Rightarrow>
                                 (case merge_configs combined (dict_pop data ''includes'') of
                                    Inl e \<Rightarrow> Inl e
                                  | Inr combined' \<Rightarrow> Inr (combined', visited'))))
                   | YList xs \<Rightarrow> Inl TypeError
                   | _ \<Rightarrow> Inl AttributeError))"

section \<open>Profile set resolver\<close>

text \<open>
  \<open>normalize_directives(config)\<close> rebuilds the \<open>directives\<close> mapping in place; the model
  returns the configuration with the rebuilt mapping.
\<close>

fun assign_all :: "ydict \<Rightarrow> string list \<Rightarrow> yval \<Rightarrow> ydict" where
  "assign_all normalized [] v = normalized"
| "assign_all normalized (k # ks) v = assign_all (dict_set normalized k v) ks v"

fun normalize_entries :: "ydict \<Rightarrow> ydict \<Rightarrow> ydict" where
  "normalize_entries normalized [] = normalized"
| "normalize_entries normalized ((raw_key, directive) # entries) =
     normalize_entries
       (assign_all normalized (expand_flag_keys raw_key directive)
          (case directive of
             YNull \<Rightarrow> YNull
           | YMap body \<Rightarrow> YMap (clean_directive_config body)
           | _ \<Rightarrow> directive))
       entries"

definition normalize_directives :: "ydict \<Rightarrow> ydict" where
  "normalize_directives config =
     (case dict_get config ''directives'' of
        Some (YMap directives) \<Rightarrow>
          dict_set config ''directives'' (YMap (normalize_entries [] directives))
      | _ \<Rightarrow> config)"

text \<open>
  \<open>load_config()\<close>. The list of profile names, which the source reads from the
  environment with \<open>resolve_profiles()\<close>, is a parameter. \<open>load_profiles\<close> is the loop in
  the \<open>try\<close> block. The result is \<open>Inl e\<close> for an exception that leaves \<open>load_config\<close>,
  \<open>Inr None\<close> for the value \<open>None\<close> and \<open>Inr (Some config)\<close> for a configuration.
\<close>

fun load_profiles ::
  "nat \<Rightarrow> ('p::linorder) fsys \<Rightarrow> string list \<Rightarrow> ydict \<Rightarrow> 'p set \<Rightarrow> error + ydict \<times> 'p set" where
  "load_profiles fuel fs [] config visited = Inr (config, visited)"
| "load_profiles fuel fs (profile # profiles) config visited =
     (case resolve_profile_path fs profile of
        Inl e \<Rightarrow> Inl e
      | Inr profile_path \<Rightarrow>
          (if \<not> fs_exists fs profile_path then Inl FileNotFoundError
           else case load_profile_tree fuel fs profile_path visited of
                  Inl e \<Rightarrow> Inl e
                | Inr (tree, visited') \<Rightarrow>
                    (case merge_configs config tree of
                       Inl e \<Rightarrow> Inl e
                     | Inr config' \<Rightarrow> load_profiles fuel fs profiles config' visited')))"

definition load_config :: "nat \<Rightarrow> ('p::linorder) fsys \<Rightarrow> string list \<Rightarrow> error + ydict option" where
  "load_config fuel fs profiles =
     (if profiles = [] then Inr None
      else case load_profiles fuel fs profiles [] {} of
             Inl FileNotFoundError \<Rightarrow> Inr None
           | Inl YAMLError \<Rightarrow> Inr None
           | Inl e \<Rightarrow> Inl e
           | Inr (config, visited) \<Rightarrow> Inr (Some (normalize_directives config)))"

section \<open>A small file system for examples\<close>

text \<open>
  The examples run on a file system with one flat directory: a path is a file's name, a
  name is its own resolved form, every include reference names a file of the directory,
  and the content of each file is given as the result of reading and parsing it. The
  suffix of a name is what \<open>pathlib\<close> takes it to be: the part from the last dot on, when
  that dot is neither the first nor the last character of the name.
\<close>

definition suffix_of :: "string \<Rightarrow> string" where
  "suffix_of s =
     (let ext = rev (takeWhile (\<lambda>c. c \<noteq> CHR ''.'') (rev s))
      in if CHR ''.'' \<in> set s \<and> ext \<noteq> [] \<and> length ext + 1 < length s
         then CHR ''.'' # ext
         else [])"

definition flat_fs :: "(string \<times> (read_error + yval)) list \<Rightarrow> string fsys" where
  "flat_fs files =
     \<lparr> fs_resolve = (\<lambda>p. p),
       fs_exists = (\<lambda>p. map_of files p \<noteq> None),
       fs_is_file = (\<lambda>p. map_of files p \<noteq> None),
       fs_is_dir = (\<lambda>p. False),
       fs_listing = (\<lambda>p. DTree p []),
       fs_suffix = suffix_of,
       fs_read_yaml =
         (\<lambda>p. case map_of files p of None \<Rightarrow> Inl NoSuchFile | Some r \<Rightarrow> r),
       fs_profile_file = (\<lambda>name. name),
       fs_path = (\<lambda>ref. ref),
       fs_is_absolute = (\<lambda>p. True),
       fs_sibling = (\<lambda>base candidate. candidate),
       fs_with_ext = (\<lambda>p ext. p @ ext) \<rparr>"

section \<open>What one entry of an overlay's directives does\<close>

text \<open>
  For stating the properties of the merge: the keys of the result's \<open>directives\<close> that the
  loop body of \<open>merge_configs\<close> removes or assigns for one entry \<open>(flag, directive)\<close> of the
  overlay's \<open>directives\<close>, and what it leaves under each of them (\<open>None\<close>: no entry).
\<close>

definition entry_keys :: "string \<times> yval \<Rightarrow> string set" where
  "entry_keys entry =
     set (expand_flag_keys (fst entry) (snd entry))
       \<union> (if snd entry = YNull then {fst entry} else {})"

definition entry_binding :: "string \<times> yval \<Rightarrow> yval option" where
  "entry_binding entry =
     (case snd entry of
        YNull \<Rightarrow> None
      | YMap body \<Rightarrow> Some (YMap (clean_directive_config body))
      | v \<Rightarrow> Some v)"

section \<open>Trees whose directives are mappings\<close>

text \<open>
  \<open>merge_configs\<close> raises only when the base holds, under the key \<open>directives\<close> of the
  mapping being merged into (at the top or in a nested mapping), a value that is not a
  mapping. \<open>directives_ok\<close> says that no mapping of a tree does, as deep as \<open>merge_configs\<close>
  descends (through mappings, not into sequences).
\<close>

definition is_mapping :: "yval \<Rightarrow> bool" where
  "is_mapping v = (case v of YMap m \<Rightarrow> True | _ \<Rightarrow> False)"

fun directives_ok :: "yval \<Rightarrow> bool" where
  "directives_ok (YMap m) =
     list_all (\<lambda>kv. (fst kv = ''directives'' \<longrightarrow> is_mapping (snd kv))
                   \<and> (fst kv \<noteq> ''directives'' \<longrightarrow> directives_ok (snd kv))) m"
| "directives_ok v = True"

text \<open>The object that \<open>result.setdefault('directives', {})\<close> returns in \<open>merge_configs\<close>:
  what the base holds under \<open>directives\<close>, or a new empty mapping.\<close>

definition base_directives :: "ydict \<Rightarrow> yval" where
  "base_directives base =
     (case dict_get base ''directives'' of None \<Rightarrow> YMap [] | Some v \<Rightarrow> v)"

section \<open>Flag tokens and opaque keys\<close>

text \<open>
  A flag token is what the pattern \<open>--[^,|\s]+\<close> matches: two dashes and at least one more
  character, with no comma, pipe or whitespace anywhere. An opaque key is what the
  fallback of \<open>expand_flag_keys\<close> yields for a raw key without a flag token: a piece
  between commas and pipes, trimmed and not empty. \<open>directives_clean\<close> says that no
  mapping stored in a tree's \<open>directives\<close> carries alias metadata.
\<close>

definition is_flag_token :: "string \<Rightarrow> bool" where
  "is_flag_token k = (take 2 k = ''--'' \<and> 2 < length k \<and> list_all (\<lambda>c. \<not> is_sep c) k)"

definition is_opaque_key :: "string \<Rightarrow> bool" where
  "is_opaque_key k =
     (k \<noteq> [] \<and> \<not> is_space (hd k) \<and> \<not> is_space (last k)
      \<and> CHR '','' \<notin> set k \<and> CHR ''|'' \<notin> set k \<and> findall_flags k = [])"

definition no_alias_metadata :: "yval \<Rightarrow> bool" where
  "no_alias_metadata d =
     (case d of
        YMap b \<Rightarrow> dict_get b ''aliases'' = None \<and> dict_get b ''variations'' = None
      | _ \<Rightarrow> True)"

definition directives_clean :: "ydict \<Rightarrow> bool" where
  "directives_clean t =
     (case dict_get t ''directives'' of
        Some (YMap ds) \<Rightarrow> list_all (\<lambda>e. no_alias_metadata (snd e)) ds
      | _ \<Rightarrow> True)"

text \<open>An example: \<open>a.yaml\<close> includes \<open>b.yaml\<close>, and both bind \<open>--x\<close> and \<open>mode\<close>.\<close>

definition example_own :: "(string \<times> (read_error + yval)) list" where
  "example_own =
     [(''a.yaml'', Inr (YMap [(''includes'', YList [YStr ''b.yaml'']),
                              (''directives'', YMap [(''--x'', YInt 1)]),
                              (''mode'', YStr ''own'')])),
      (''b.yaml'', Inr (YMap [(''directives'', YMap [(''--x'', YInt 2), (''--y'', YInt 2)]),
                              (''mode'', YStr ''included'')]))]"

section \<open>Readable files\<close>

text \<open>
  The paths that open and parse. A file system has finitely many of them; that is the
  one assumption under which \<open>load_profile_tree\<close> is shown to return.
\<close>

definition readable :: "'p fsys \<Rightarrow> 'p set" where
  "readable fs = {p. \<exists>document. fs_read_yaml fs p = Inr document}"

text \<open>An example: two files that include each other.\<close>

definition example_cycle :: "(string \<times> (read_error + yval)) list" where
  "example_cycle =
     [(''a.yaml'', Inr (YMap [(''includes'', YList [YStr ''b.yaml'']),
                              (''directives'', YMap [(''--a'', YInt 1)])])),
      (''b.yaml'', Inr (YMap [(''includes'', YList [YStr ''a.yaml'']),
                              (''directives'', YMap [(''--b'', YInt 2)])]))]"

section \<open>Equal trees and plain trees\<close>

text \<open>
  \<open>yeq\<close> is Python's \<open>==\<close> on the values of the model: two mappings are equal when they
  have the same keys and equal values under each, whatever the order of their entries;
  two sequences are equal when they are equal element by element. \<open>wf_yval\<close> says that
  no mapping of a value binds a key twice, as no Python \<open>dict\<close> does. A tree is \<open>plain\<close>
  when merging it as the overlay has nothing to delete, expand or strip: in every mapping
  reached through mappings, no key other than \<open>directives\<close> is bound to null, and
  \<open>directives\<close> is bound to a mapping whose directives are not null, lie under keys that
  expand to themselves alone, and carry no \<open>aliases\<close> or \<open>variations\<close> fields.
  \<open>directives_first\<close> moves the \<open>directives\<close> entry of every such mapping to the front,
  which is where \<open>setdefault\<close> puts it in a result that starts empty.
\<close>

fun wf_yval :: "yval \<Rightarrow> bool" where
  "wf_yval (YMap m) = (distinct (map fst m) \<and> list_all (\<lambda>kv. wf_yval (snd kv)) m)"
| "wf_yval (YList xs) = list_all wf_yval xs"
| "wf_yval v = True"

fun yeq :: "yval \<Rightarrow> yval \<Rightarrow> bool" where
  "yeq (YMap m1) (YMap m2) =
     (set (map fst m1) = set (map fst m2)
      \<and> list_all (\<lambda>kv. case map_of m2 (fst kv) of
                          None \<Rightarrow> False
                        | Some w \<Rightarrow> yeq (snd kv) w) m1)"
| "yeq (YList xs) (YList ys) = list_all2 yeq xs ys"
| "yeq a b = (a = b)"

definition plain_directive :: "string \<times> yval \<Rightarrow> bool" where
  "plain_directive entry =
     (snd entry \<noteq> YNull
      \<and> expand_flag_keys (fst entry) (snd entry) = [fst entry]
      \<and> (case snd entry of YMap body \<Rightarrow> clean_directive_config body = body | _ \<Rightarrow> True))"

fun plain :: "yval \<Rightarrow> bool" where
  "plain (YMap m) =
     list_all (\<lambda>kv. if fst kv = ''directives''
                     then (case snd kv of YMap ds \<Rightarrow> list_all plain_directive ds | _ \<Rightarrow> False)
                     else snd kv \<noteq> YNull \<and> plain (snd kv)) m"
| "plain v = True"

fun directives_first :: "yval \<Rightarrow> yval" where
  "directives_first (YMap m) =
     YMap (filter (\<lambda>kv. fst kv = ''directives'') m
           @ map (\<lambda>kv. (fst kv, directives_first (snd kv)))
               (filter (\<lambda>kv. fst kv \<noteq> ''directives'') m))"
| "directives_first v = v"


definition example_tree :: ydict where
  "example_tree =
     [(''hook_messages'', YMap [(''standard'', YMap [(''message'', YStr ''run'')]),
                                (''order'', YList [YInt 1, YNull])]),
      (''directives'', YMap [(''--analyze'', YMap [(''brief'', YStr ''look'')]),
                             (''--fast'', YBool True)]),
      (''version'', YInt 2)]"

section \<open>Include entries that are passed over\<close>

text \<open>
  For stating what the guard of the loop in \<open>load_profile_tree\<close> does. \<open>is_reference\<close> is
  the negation of the guard \<open>not isinstance(include_ref, str) or not include_ref.strip()\<close>:
  the entry is a string that is not blank. \<open>drop_blank_includes\<close> takes the other entries
  out of a document's \<open>includes\<close> list, and \<open>without_blank_includes\<close> is the file system
  in which every document has been treated so.
\<close>

definition is_reference :: "yval \<Rightarrow> bool" where
  "is_reference include_ref = (case include_ref of YStr s \<Rightarrow> strip s \<noteq> [] | _ \<Rightarrow> False)"

definition drop_blank_includes :: "yval \<Rightarrow> yval" where
  "drop_blank_includes document =
     (case document of
        YMap data \<Rightarrow>
          YMap (map (\<lambda>kv. if fst kv = ''includes''
                          then (fst kv, (case snd kv of
                                           YList refs \<Rightarrow> YList (filter is_reference refs)
                                         | v \<Rightarrow> v))
                          else kv) data)
      | _ \<Rightarrow> document)"

definition without_blank_includes :: "'p fsys \<Rightarrow> 'p fsys" where
  "without_blank_includes fs =
     fs \<lparr> fs_read_yaml :=
            (\<lambda>p. case fs_read_yaml fs p of
                   Inl e \<Rightarrow> Inl e
                 | Inr document \<Rightarrow> Inr (drop_blank_includes document)) \<rparr>"

text \<open>An example: \<open>a.yaml\<close> lists a blank string, \<open>b.yaml\<close>, a number and an empty string;
  \<open>b.yaml\<close> lists null and a tab.\<close>

definition example_blank :: "(string \<times> (read_error + yval)) list" where
  "example_blank =
     [(''a.yaml'', Inr (YMap [(''includes'', YList [YStr ''  '', YStr ''b.yaml'', YInt 5, YStr []]),
                              (''directives'', YMap [(''--x'', YInt 1)])])),
      (''b.yaml'', Inr (YMap [(''includes'', YList [YNull, YStr [CHR 0x09]]),
                              (''directives'', YMap [(''--y'', YInt 2)])]))]"

section \<open>Compound raw keys\<close>

text \<open>
  For stating which keys a raw key stands for, without the scanner. A compound raw key is
  a sequence of parts, each a flag token followed by a run of separators (commas, pipes,
  whitespace) that is not empty unless the part is the last: \<open>compound_key\<close> writes the
  parts out, \<open>separated\<close> is the condition. \<open>joined\<close> writes out pieces with one comma or
  pipe before each piece but the first.
\<close>

fun compound_key :: "(string \<times> string) list \<Rightarrow> string" where
  "compound_key [] = []"
| "compound_key (part # parts) = fst part @ snd part @ compound_key parts"

fun separated :: "(string \<times> string) list \<Rightarrow> bool" where
  "separated [] = True"
| "separated [part] = (is_flag_token (fst part) \<and> list_all is_sep (snd part))"
| "separated (part # parts) =
     (is_flag_token (fst part) \<and> snd part \<noteq> [] \<and> list_all is_sep (snd part) \<and> separated parts)"

fun joined :: "string \<Rightarrow> (char \<times> string) list \<Rightarrow> string" where
  "joined piece [] = piece"
| "joined piece (next_piece # rest) = piece @ fst next_piece # joined (snd next_piece) rest"

section \<open>Chains of includes\<close>









section \<open>Basic facts\<close>

lemma merge_configs_empty_overlay: "merge_configs base [] = Inr base"
  by (simp add: merge_directives_into_def dict_get_def)

declare merge_configs.simps [simp del]

section \<open>Documents that are not mappings\<close>

text \<open>
  Claim C10. A profile file can parse as YAML and still not be a mapping. When the parsed
  document is truthy and not a mapping (a non-empty sequence, a non-empty string, a
  non-zero number, \<open>True\<close>), \<open>data.pop('includes', [])\<close> raises \<open>TypeError\<close> (on a sequence)
  or \<open>AttributeError\<close> (on the others); \<open>load_config\<close> catches only \<open>FileNotFoundError\<close>
  and \<open>yaml.YAMLError\<close>, so the exception leaves it. When the parsed document is falsy
  (null, an empty string, sequence or mapping, zero, \<open>False\<close>), \<open>or {}\<close> makes it the empty
  mapping and \<open>load_config\<close> returns the empty configuration.
\<close>

theorem non_mapping_document:
  assumes "resolve_profile_path fs profile = Inr path"
      and "fs_exists fs path"
      and "fs_read_yaml fs (fs_resolve fs path) = Inr document"
  shows "(truthy document \<and> (\<forall>m. document \<noteq> YMap m) \<longrightarrow>
            load_config (Suc n) fs [profile] =
              Inl (case document of YList xs \<Rightarrow> TypeError | _ \<Rightarrow> AttributeError))
       \<and> (\<not> truthy document \<longrightarrow> load_config (Suc n) fs [profile] = Inr (Some []))"
proof (intro conjI impI)
  assume "truthy document \<and> (\<forall>m. document \<noteq> YMap m)"
  then have "load_profile_tree (Suc n) fs path {} =
               Inl (case document of YList xs \<Rightarrow> TypeError | _ \<Rightarrow> AttributeError)"
    using assms(3) by (cases document) simp_all
  then show "load_config (Suc n) fs [profile] =
               Inl (case document of YList xs \<Rightarrow> TypeError | _ \<Rightarrow> AttributeError)"
    using assms(1,2) by (cases document) (simp_all add: load_config_def)
next
  assume "\<not> truthy document"
  then have "load_profile_tree (Suc n) fs path {} = Inr ([], {fs_resolve fs path})"
    using assms(3)
    by (simp add: includes_of_def dict_get_def dict_pop_def merge_configs_empty_overlay)
  then show "load_config (Suc n) fs [profile] = Inr (Some [])"
    using assms(1,2)
    by (simp add: load_config_def merge_configs_empty_overlay normalize_directives_def
          dict_get_def)
qed

theorem non_mapping_document_witness:
  "load_config (Suc 0) (flat_fs [(''claude.yaml'', Inr (YList [YStr ''--x'']))]) [''claude'']
     = Inl TypeError
   \<and> load_config (Suc 0) (flat_fs [(''claude.yaml'', Inr (YStr ''--x''))]) [''claude'']
     = Inl AttributeError
   \<and> load_config (Suc 0) (flat_fs [(''claude.yaml'', Inr YNull)]) [''claude'']
     = Inr (Some [])"
proof -
  have p: "\<And>d. resolve_profile_path (flat_fs [(''claude.yaml'', Inr d)]) ''claude''
             = Inr ''claude.yaml''"
    by (simp add: resolve_profile_path_def flat_fs_def strip_def is_space_def endswith_def
          lower_def lower_char_def)
  have e: "\<And>d. fs_exists (flat_fs [(''claude.yaml'', Inr d)]) ''claude.yaml''"
    by (simp add: flat_fs_def)
  have r: "\<And>d. fs_read_yaml (flat_fs [(''claude.yaml'', Inr d)])
              (fs_resolve (flat_fs [(''claude.yaml'', Inr d)]) ''claude.yaml'') = Inr d"
    by (simp add: flat_fs_def)
  show ?thesis
    using non_mapping_document [OF p e r, of "YList [YStr ''--x'']" 0]
      non_mapping_document [OF p e r, of "YStr ''--x''" 0]
      non_mapping_document [OF p e r, of YNull 0]
    by simp
qed

section \<open>Mappings and the directives pass\<close>

lemma dict_get_dict_set: "dict_get (dict_set d k v) k' = (if k' = k then Some v else dict_get d k')"
  by (induction d) (auto simp: dict_get_def)

lemma dict_get_dict_pop: "dict_get (dict_pop d k) k' = (if k' = k then None else dict_get d k')"
  by (induction d) (auto simp: dict_get_def dict_pop_def)

lemma dict_get_append_new:
  "dict_get (d @ [(k, v)]) k' = (case dict_get d k' of Some w \<Rightarrow> Some w | None \<Rightarrow> if k' = k then Some v else None)"
  by (induction d) (auto simp: dict_get_def)

lemma assign_keys_map:
  "\<exists>d'. assign_keys (YMap d) ks v = Inr (YMap d')
        \<and> (\<forall>k. dict_get d' k = (if k \<in> set ks then Some v else dict_get d k))"
proof (induction ks arbitrary: d)
  case Nil
  then show ?case by simp
next
  case (Cons a ks)
  obtain d' where d': "assign_keys (YMap (dict_set d a v)) ks v = Inr (YMap d')"
    "\<forall>k. dict_get d' k = (if k \<in> set ks then Some v else dict_get (dict_set d a v) k)"
    using Cons.IH by blast
  show ?case
    using d' by (auto simp: directives_setitem_def dict_get_dict_set)
qed

lemma pop_keys_map:
  "\<exists>d'. pop_keys (YMap d) ks = Inr (YMap d')
        \<and> (\<forall>k. dict_get d' k = (if k \<in> set ks then None else dict_get d k))"
proof (induction ks arbitrary: d)
  case Nil
  then show ?case by simp
next
  case (Cons a ks)
  obtain d' where d': "pop_keys (YMap (dict_pop d a)) ks = Inr (YMap d')"
    "\<forall>k. dict_get d' k = (if k \<in> set ks then None else dict_get (dict_pop d a) k)"
    using Cons.IH by blast
  show ?case
    using d' by (auto simp: directives_pop_def dict_get_dict_pop)
qed

lemma merge_directive_map:
  "\<exists>d'. merge_directive (YMap d) entry = Inr (YMap d')
        \<and> (\<forall>k. dict_get d' k = (if k \<in> entry_keys entry then entry_binding entry else dict_get d k))"
proof (cases "snd entry")
  case YNull
  obtain d' where d': "pop_keys (YMap (dict_pop d (fst entry))) (expand_flag_keys (fst entry) YNull) = Inr (YMap d')"
    "\<forall>k. dict_get d' k = (if k \<in> set (expand_flag_keys (fst entry) YNull) then None else dict_get (dict_pop d (fst entry)) k)"
    using pop_keys_map by blast
  then show ?thesis
    using YNull
    by (auto simp: merge_directive_def entry_keys_def entry_binding_def directives_pop_def
        dict_get_dict_pop)
next
  case (YMap body)
  then show ?thesis
    using assign_keys_map [of d "expand_flag_keys (fst entry) (snd entry)" "YMap (clean_directive_config body)"]
    by (auto simp: merge_directive_def entry_keys_def entry_binding_def)
qed (use assign_keys_map [of d "expand_flag_keys (fst entry) (snd entry)" "snd entry"] in
      \<open>auto simp: merge_directive_def entry_keys_def entry_binding_def\<close>)

lemma merge_directives_total:
  "\<exists>d'. merge_directives (YMap d) entries = Inr (YMap d')"
proof (induction entries arbitrary: d)
  case Nil
  then show ?case by simp
next
  case (Cons e entries)
  obtain d1 where "merge_directive (YMap d) e = Inr (YMap d1)"
    using merge_directive_map by blast
  then show ?case using Cons.IH [of d1] by simp
qed

lemma merge_directives_frame:
  assumes "merge_directives (YMap d) entries = Inr (YMap d')"
      and "\<forall>e \<in> set entries. k \<notin> entry_keys e"
  shows "dict_get d' k = dict_get d k"
  using assms
proof (induction entries arbitrary: d)
  case Nil
  then show ?case by simp
next
  case (Cons e entries)
  obtain d1 where d1: "merge_directive (YMap d) e = Inr (YMap d1)"
    "\<forall>k. dict_get d1 k = (if k \<in> entry_keys e then entry_binding e else dict_get d k)"
    using merge_directive_map by blast
  have "dict_get d' k = dict_get d1 k"
    using Cons.IH [of d1] Cons.prems d1(1) by simp
  then show ?case using d1(2) Cons.prems(2) by simp
qed

lemma merge_directives_last:
  assumes "merge_directives (YMap d) (pre @ e # post) = Inr (YMap d')"
      and "k \<in> entry_keys e"
      and "\<forall>e' \<in> set post. k \<notin> entry_keys e'"
  shows "dict_get d' k = entry_binding e"
  using assms
proof (induction pre arbitrary: d)
  case Nil
  obtain d1 where d1: "merge_directive (YMap d) e = Inr (YMap d1)"
    "\<forall>k. dict_get d1 k = (if k \<in> entry_keys e then entry_binding e else dict_get d k)"
    using merge_directive_map by blast
  have "dict_get d' k = dict_get d1 k"
    using merge_directives_frame [of d1 post d' k] Nil.prems d1(1) by simp
  then show ?case using d1(2) Nil.prems(2) by simp
next
  case (Cons a pre)
  obtain d1 where d1: "merge_directive (YMap d) a = Inr (YMap d1)"
    using merge_directive_map by blast
  show ?case using Cons.IH [of d1] Cons.prems d1 by simp
qed

lemma merge_items_keeps_directives:
  "merge_items result items = Inr r \<Longrightarrow> dict_get r ''directives'' = dict_get result ''directives''"
proof (induction result items arbitrary: r rule: merge_configs_merge_items.induct(2)
    [where P = "\<lambda>base overlay. True"])
  case (1 base overlay)
  then show ?case by simp
next
  case (2 result)
  then show ?case by simp
next
  case (3 result key v items)
  show ?case
  proof (cases "key = ''directives''")
    case True
    then show ?thesis using "3.IH"(1) "3.prems" by simp
  next
    case False
    note neq = False
    show ?thesis
    proof (cases v)
      case YNull
      then show ?thesis using "3.IH"(2) [OF neq YNull] "3.prems" neq
        by (simp add: dict_get_dict_pop)
    next
      case (YMap m)
      obtain merged where m: "merge_configs (case dict_get result key of Some (YMap existing) \<Rightarrow> existing | _ \<Rightarrow> []) m = Inr merged"
        and r: "merge_items (dict_set result key (YMap merged)) items = Inr r"
        using "3.prems" neq YMap by (auto split: sum.splits)
      show ?thesis using "3.IH"(7) [OF neq YMap m r] neq by (simp add: dict_get_dict_set)
    next
      case (YBool b)
      then show ?thesis using "3.IH"(3) [OF neq YBool] "3.prems" neq by (simp add: dict_get_dict_set)
    next
      case (YInt i)
      then show ?thesis using "3.IH"(4) [OF neq YInt] "3.prems" neq by (simp add: dict_get_dict_set)
    next
      case (YStr s)
      then show ?thesis using "3.IH"(5) [OF neq YStr] "3.prems" neq by (simp add: dict_get_dict_set)
    next
      case (YList xs)
      then show ?thesis using "3.IH"(6) [OF neq YList] "3.prems" neq by (simp add: dict_get_dict_set)
    qed
  qed
qed

section \<open>The merge raises nothing on trees whose directives are mappings\<close>

lemma directives_ok_get:
  "directives_ok (YMap m) \<Longrightarrow> dict_get m ''directives'' = Some v \<Longrightarrow> is_mapping v"
  by (auto simp: dict_get_def list_all_iff dest!: map_of_SomeD)

lemma directives_ok_existing:
  assumes "directives_ok (YMap m)" and "key \<noteq> ''directives''"
  shows "directives_ok
           (YMap (case dict_get m key of Some (YMap existing) \<Rightarrow> existing | _ \<Rightarrow> []))"
proof (cases "\<exists>existing. dict_get m key = Some (YMap existing)")
  case True
  then obtain existing where e: "dict_get m key = Some (YMap existing)" by blast
  then have "(key, YMap existing) \<in> set m"
    by (simp add: dict_get_def map_of_SomeD)
  moreover have "\<forall>kv \<in> set m. fst kv \<noteq> ''directives'' \<longrightarrow> directives_ok (snd kv)"
    using assms(1) by (simp add: list_all_iff)
  ultimately have "directives_ok (snd (key, YMap existing))"
    using assms(2) by (metis fst_conv)
  then show ?thesis using e by (simp del: directives_ok.simps)
next
  case False
  then show ?thesis by (auto split: option.splits yval.splits)
qed

lemma directives_ok_set:
  "directives_ok (YMap m) \<Longrightarrow>
     (if key = ''directives'' then is_mapping v else directives_ok v) \<Longrightarrow>
     directives_ok (YMap (dict_set m key v))"
  by (induction m) (auto split: if_splits)

lemma directives_ok_pop: "directives_ok (YMap m) \<Longrightarrow> directives_ok (YMap (dict_pop m key))"
  by (auto simp: dict_pop_def list_all_iff)

lemma directives_ok_append:
  "directives_ok (YMap m) \<Longrightarrow> directives_ok (YMap (m @ [(''directives'', YMap d)]))"
  by (auto simp: is_mapping_def)

lemma merge_directives_into_ok:
  assumes "directives_ok (YMap base)"
  shows "\<exists>result. merge_directives_into base overlay = Inr result \<and> directives_ok (YMap result)"
proof (cases "\<exists>dov. dict_get overlay ''directives'' = Some (YMap dov)")
  case False
  then show ?thesis using assms
    by (auto simp: merge_directives_into_def split: option.splits yval.splits)
next
  case True
  then obtain dov where dov: "dict_get overlay ''directives'' = Some (YMap dov)" by blast
  show ?thesis
  proof (cases "dict_get base ''directives''")
    case None
    obtain d' where "merge_directives (YMap []) dov = Inr (YMap d')"
      using merge_directives_total by blast
    then show ?thesis
      using dov None assms directives_ok_set [OF directives_ok_append [OF assms, of "[]"], of "''directives''" "YMap d'"]
      by (simp add: merge_directives_into_def is_mapping_def)
  next
    case (Some v)
    then obtain d where v: "v = YMap d"
      using directives_ok_get [OF assms Some] by (cases v) (simp_all add: is_mapping_def)
    obtain d' where "merge_directives (YMap d) dov = Inr (YMap d')"
      using merge_directives_total by blast
    then show ?thesis
      using dov Some v directives_ok_set [OF assms, of "''directives''" "YMap d'"]
      by (simp add: merge_directives_into_def is_mapping_def)
  qed
qed

lemma merge_ok_both:
  "(directives_ok (YMap base) \<longrightarrow>
      (\<exists>r. merge_configs base overlay = Inr r \<and> directives_ok (YMap r)))"
  "(directives_ok (YMap result) \<longrightarrow>
      (\<exists>r. merge_items result items = Inr r \<and> directives_ok (YMap r)))"
proof (induction base overlay and result items rule: merge_configs_merge_items.induct)
  case (1 base overlay)
  show ?case
  proof
    assume ok: "directives_ok (YMap base)"
    obtain result where r: "merge_directives_into base overlay = Inr result"
      "directives_ok (YMap result)"
      using merge_directives_into_ok [OF ok] by blast
    show "\<exists>r. merge_configs base overlay = Inr r \<and> directives_ok (YMap r)"
      using "1.IH" [OF r(1)] r by (simp add: merge_configs.simps)
  qed
next
  case (2 result)
  then show ?case by simp
next
  case (3 result key v items)
  show ?case
  proof
    assume ok: "directives_ok (YMap result)"
    show "\<exists>r. merge_items result ((key, v) # items) = Inr r \<and> directives_ok (YMap r)"
    proof (cases "key = ''directives''")
      case True
      then show ?thesis using "3.IH"(1) ok by simp
    next
      case False
      note neq = False
      show ?thesis
      proof (cases v)
        case YNull
        then show ?thesis
          using "3.IH"(2) [OF neq YNull] directives_ok_pop [OF ok] neq by simp
      next
        case (YMap m)
        obtain merged where m: "merge_configs (case dict_get result key of Some (YMap existing) \<Rightarrow> existing | _ \<Rightarrow> []) m = Inr merged"
          "directives_ok (YMap merged)"
          using "3.IH"(7) [OF neq YMap] directives_ok_existing [OF ok neq] by blast
        have "directives_ok (YMap (dict_set result key (YMap merged)))"
          using directives_ok_set [OF ok, of key "YMap merged"] m(2) neq by simp
        then show ?thesis
          using "3.IH"(8) [OF neq YMap m(1)] m(1) neq YMap by simp
      next
        case (YBool b)
        then show ?thesis
          using "3.IH"(3) [OF neq YBool] directives_ok_set [OF ok, of key v] neq by simp
      next
        case (YInt i)
        then show ?thesis
          using "3.IH"(4) [OF neq YInt] directives_ok_set [OF ok, of key v] neq by simp
      next
        case (YStr s)
        then show ?thesis
          using "3.IH"(5) [OF neq YStr] directives_ok_set [OF ok, of key v] neq by simp
      next
        case (YList xs)
        then show ?thesis
          using "3.IH"(6) [OF neq YList] directives_ok_set [OF ok, of key v] neq by simp
      qed
    qed
  qed
qed

lemma merge_configs_directives:
  assumes "dict_get overlay ''directives'' = Some (YMap dov)"
      and "merge_configs base overlay = Inr result"
  shows "\<exists>directives'.
           merge_directives (case dict_get base ''directives'' of None \<Rightarrow> YMap [] | Some v \<Rightarrow> v) dov
             = Inr directives'
         \<and> dict_get result ''directives'' = Some directives'"
proof -
  obtain r0 where r0: "merge_directives_into base overlay = Inr r0"
    "merge_items r0 overlay = Inr result"
    using assms(2) by (auto simp: merge_configs.simps split: sum.splits)
  obtain directives' where d: "merge_directives (case dict_get base ''directives'' of None \<Rightarrow> YMap [] | Some v \<Rightarrow> v) dov = Inr directives'"
    "r0 = dict_set (case dict_get base ''directives'' of None \<Rightarrow> base @ [(''directives'', YMap [])] | Some v \<Rightarrow> base) ''directives'' directives'"
    using r0(1) assms(1) by (auto simp: merge_directives_into_def split: sum.splits)
  have "dict_get result ''directives'' = dict_get r0 ''directives''"
    using merge_items_keeps_directives [OF r0(2)] .
  then show ?thesis using d by (simp add: dict_get_dict_set)
qed

lemma merge_directives_append:
  "merge_directives ds (xs @ ys) =
     (case merge_directives ds xs of Inl e \<Rightarrow> Inl e | Inr ds' \<Rightarrow> merge_directives ds' ys)"
  by (induction xs arbitrary: ds) (auto split: sum.splits)

lemma merge_directives_mapping:
  "merge_directives (YMap d) entries = Inr v \<Longrightarrow> \<exists>d'. v = YMap d'"
  using merge_directives_total [of d entries] by auto

section \<open>Deleting a directive\<close>

text \<open>
  Claim C6, amended. When the base's \<open>directives\<close> is a mapping and the overlay's
  \<open>directives\<close> binds a raw key \<open>flag\<close> to null, the merged tree's \<open>directives\<close> has no
  entry under \<open>flag\<close> nor under any key expanded from it, provided no later entry of the
  same overlay's \<open>directives\<close> assigns that key again (the entries are applied in their
  order, so a later non-null entry that expands to the key puts it back). The merge
  raises nothing when every
  \<open>directives\<close> of the base is a mapping.
\<close>

theorem directive_deletion:
  assumes base: "dict_get base ''directives'' = Some (YMap bd)"
      and overlay: "dict_get overlay ''directives'' = Some (YMap (pre @ (flag, YNull) # post))"
      and key: "k = flag \<or> k \<in> set (expand_flag_keys flag YNull)"
      and later: "\<forall>e \<in> set post. snd e \<noteq> YNull \<longrightarrow> k \<notin> set (expand_flag_keys (fst e) (snd e))"
  shows "(directives_ok (YMap base) \<longrightarrow> (\<exists>result. merge_configs base overlay = Inr result))
       \<and> (\<forall>result. merge_configs base overlay = Inr result \<longrightarrow>
            (\<exists>ds. dict_get result ''directives'' = Some (YMap ds) \<and> dict_get ds k = None))"
proof (intro conjI allI impI)
  assume "directives_ok (YMap base)"
  then show "\<exists>result. merge_configs base overlay = Inr result"
    using merge_ok_both(1) [of base overlay] by blast
next
  fix result
  assume merged: "merge_configs base overlay = Inr result"
  obtain v where v: "merge_directives (YMap bd) (pre @ (flag, YNull) # post) = Inr v"
    "dict_get result ''directives'' = Some v"
    using merge_configs_directives [OF overlay merged] base by auto
  obtain ds where ds: "v = YMap ds"
    using merge_directives_mapping [OF v(1)] by blast
  obtain mid where mid: "merge_directives (YMap bd) (pre @ [(flag, YNull)]) = Inr (YMap mid)"
    using merge_directives_total by blast
  have here: "dict_get mid k = None"
    using merge_directives_last [of bd pre "(flag, YNull)" "[]" mid k] mid key
    by (auto simp: entry_keys_def entry_binding_def)
  have rest: "merge_directives (YMap mid) post = Inr (YMap ds)"
    using v(1) ds mid merge_directives_append [of "YMap bd" "pre @ [(flag, YNull)]" post]
    by simp
  show "\<exists>ds. dict_get result ''directives'' = Some (YMap ds) \<and> dict_get ds k = None"
  proof (cases "\<exists>e \<in> set post. k \<in> entry_keys e")
    case False
    then have "dict_get ds k = dict_get mid k"
      using merge_directives_frame [OF rest] by blast
    then show ?thesis using here v(2) ds by simp
  next
    case True
    then obtain p1 e p2 where split: "post = p1 @ e # p2" "k \<in> entry_keys e"
      "\<forall>e' \<in> set p2. k \<notin> entry_keys e'"
      using split_list_last_prop [of post "\<lambda>e. k \<in> entry_keys e"] by blast
    have "e \<in> set post" using split(1) by simp
    then have "snd e = YNull"
      using later split(2) by (auto simp: entry_keys_def split: if_splits)
    then have "entry_binding e = None" by (simp add: entry_binding_def)
    moreover have "dict_get ds k = entry_binding e"
      using merge_directives_last [of mid p1 e p2 ds k] rest split by simp
    ultimately show ?thesis using v(2) ds by simp
  qed
qed

text \<open>The example of the specification: merging \<open>{directives: {"--x": null}}\<close> onto
  \<open>{directives: {"--x": {foo: 1}, "--y": 3}}\<close> leaves no \<open>--x\<close>.\<close>

theorem directive_deletion_witness:
  "merge_configs
     [(''directives'', YMap [(''--x'', YMap [(''foo'', YInt 1)]), (''--y'', YInt 3)])]
     [(''directives'', YMap [(''--x'', YNull)])]
   = Inr [(''directives'', YMap [(''--y'', YInt 3)])]
   \<and> (\<exists>ds. dict_get [(''directives'', YMap [(''--y'', YInt 3)])] ''directives'' = Some (YMap ds)
         \<and> dict_get ds ''--x'' = None)"
proof -
  have m: "merge_configs
             [(''directives'', YMap [(''--x'', YMap [(''foo'', YInt 1)]), (''--y'', YInt 3)])]
             [(''directives'', YMap [(''--x'', YNull)])]
           = Inr [(''directives'', YMap [(''--y'', YInt 3)])]"
    by code_simp
  show ?thesis
    using m directive_deletion
      [where base = "[(''directives'', YMap [(''--x'', YMap [(''foo'', YInt 1)]), (''--y'', YInt 3)])]"
         and bd = "[(''--x'', YMap [(''foo'', YInt 1)]), (''--y'', YInt 3)]"
         and overlay = "[(''directives'', YMap [(''--x'', YNull)])]"
         and pre = "[]" and flag = "''--x''" and post = "[]" and k = "''--x''"]
    by (simp add: dict_get_def)
qed

text \<open>
  The claim as it is stated fails: the overlay below binds \<open>--x\<close> to null, and the merged
  \<open>directives\<close> still has \<open>--x\<close>, assigned by the entry that follows.
\<close>

theorem directive_deletion_counterexample:
  "merge_configs
     [(''directives'', YMap [(''--x'', YMap [(''foo'', YInt 1)])])]
     [(''directives'', YMap [(''--x'', YNull), (''--x, --y'', YInt 2)])]
   = Inr [(''directives'', YMap [(''--x'', YInt 2), (''--y'', YInt 2)])]"
  by code_simp

section \<open>The keys of an entry\<close>

lemma findall_flags_token:
  "t \<in> set (findall_flags s) \<Longrightarrow>
     \<exists>w. t = CHR ''-'' # CHR ''-'' # w \<and> w \<noteq> [] \<and> (\<forall>c \<in> set w. \<not> is_sep c)"
proof (induction s rule: findall_flags.induct)
  case 1
  then show ?case by simp
next
  case (2 c cs)
  show ?case
  proof (cases "c = CHR ''-'' \<and> cs \<noteq> [] \<and> hd cs = CHR ''-''
         \<and> takeWhile (\<lambda>x. \<not> is_sep x) (tl cs) \<noteq> []")
    case True
    then have "t = c # hd cs # takeWhile (\<lambda>x. \<not> is_sep x) (tl cs)
               \<or> t \<in> set (findall_flags (dropWhile (\<lambda>x. \<not> is_sep x) (tl cs)))"
      using "2.prems" by simp
    then show ?thesis
    proof
      assume "t = c # hd cs # takeWhile (\<lambda>x. \<not> is_sep x) (tl cs)"
      then show ?thesis using True by (auto dest: set_takeWhileD)
    next
      assume "t \<in> set (findall_flags (dropWhile (\<lambda>x. \<not> is_sep x) (tl cs)))"
      then show ?thesis using "2.IH"(1) True by blast
    qed
  next
    case False
    then have "t \<in> set (findall_flags cs)" using "2.prems" by auto
    then show ?thesis using "2.IH"(2) False by blast
  qed
qed

lemma is_space_is_sep: "is_space c \<Longrightarrow> is_sep c"
  by (simp add: is_sep_def)

lemma strip_id:
  assumes "s \<noteq> []" and "\<not> is_space (hd s)" and "\<not> is_space (last s)"
  shows "strip s = s"
proof -
  have "dropWhile is_space s = s"
    using assms(1,2) by (cases s) simp_all
  moreover have "dropWhile is_space (rev s) = rev s"
    using assms(1,3) by (cases "rev s") (simp_all add: last_rev [symmetric] hd_rev)
  ultimately show ?thesis by (simp add: strip_def)
qed

lemma token_strip:
  assumes "t \<in> set (findall_flags s)"
  shows "strip t = t \<and> t \<noteq> []"
proof -
  obtain w where w: "t = CHR ''-'' # CHR ''-'' # w" "w \<noteq> []" "\<forall>c \<in> set w. \<not> is_sep c"
    using findall_flags_token [OF assms] by blast
  have "\<not> is_space (CHR ''-'')" by (simp add: is_space_def)
  moreover have "last t = last w" using w(1,2) by simp
  moreover have "last w \<in> set w" using w(2) by simp
  then have "\<not> is_space (last w)" using w(3) is_space_is_sep by blast
  ultimately show ?thesis using strip_id [of t] w(1) by simp
qed

lemma tokens_in_raw_key_tokens:
  "t \<in> set (findall_flags raw_key) \<Longrightarrow> t \<in> set (raw_key_tokens raw_key)"
proof -
  assume t: "t \<in> set (findall_flags raw_key)"
  then have "t \<in> set (nonempty_stripped (findall_flags raw_key))"
    using token_strip [OF t] by (force simp: nonempty_stripped_def)
  then show ?thesis by (auto simp: raw_key_tokens_def Let_def)
qed

lemma alias_strings_member: "YStr s \<in> set xs \<Longrightarrow> s \<in> set (alias_strings xs)"
  by (induction xs rule: alias_strings.induct) auto

lemma alias_keys_member:
  assumes "dict_get body field = Some (YList aliases)" and "YStr s \<in> set aliases"
      and "strip s \<noteq> []"
  shows "strip s \<in> set (alias_keys body field)"
  using assms alias_strings_member [OF assms(2)]
  by (auto simp: alias_keys_def nonempty_stripped_def)

lemma expand_flag_keys_set:
  "set (expand_flag_keys flag (YMap body)) =
     set (raw_key_tokens flag) \<union> set (alias_keys body ''aliases'')
       \<union> set (alias_keys body ''variations'')"
  by (auto simp: expand_flag_keys_def)

section \<open>Blank include references\<close>

lemma load_includes_skip_any:
  assumes "\<not> is_reference include_ref"
  shows "load_includes load fs resolved (before @ include_ref # after) combined visited
           = load_includes load fs resolved (before @ after) combined visited"
proof (induction before arbitrary: combined visited)
  case Nil
  then show ?case using assms by (cases include_ref) (simp_all add: is_reference_def)
next
  case (Cons a before)
  then show ?case
    by (cases a) (auto split: sum.splits)
qed

lemma load_includes_filter:
  "load_includes load fs resolved (filter is_reference refs) combined visited
     = load_includes load fs resolved refs combined visited"
proof (induction refs arbitrary: combined visited)
  case Nil
  then show ?case by simp
next
  case (Cons a refs)
  then show ?case
    by (cases a) (auto simp: is_reference_def split: sum.splits)
qed

lemma collect_yaml_files_read:
  "collect_yaml_files (fs \<lparr> fs_read_yaml := r \<rparr>) t = collect_yaml_files fs t"
proof (induction t)
  case (DTree directory entries)
  let ?fs = "fs \<lparr> fs_read_yaml := r \<rparr>"
  have "map (\<lambda>entry. if fs_is_dir ?fs (dtree_path entry) then collect_yaml_files ?fs entry
                else if is_yaml_file ?fs (dtree_path entry)
                     then [fs_resolve ?fs (dtree_path entry)]
                     else [])
          (sort_key dtree_path entries)
        = map (\<lambda>entry. if fs_is_dir fs (dtree_path entry) then collect_yaml_files fs entry
                else if is_yaml_file fs (dtree_path entry)
                     then [fs_resolve fs (dtree_path entry)]
                     else [])
          (sort_key dtree_path entries)"
  proof (rule map_cong [OF refl])
    fix entry
    assume "entry \<in> set (sort_key dtree_path entries)"
    then have "entry \<in> set entries" by simp
    then have "collect_yaml_files ?fs entry = collect_yaml_files fs entry"
      by (rule DTree.IH)
    then show "(if fs_is_dir ?fs (dtree_path entry) then collect_yaml_files ?fs entry
                else if is_yaml_file ?fs (dtree_path entry)
                     then [fs_resolve ?fs (dtree_path entry)]
                     else [])
             = (if fs_is_dir fs (dtree_path entry) then collect_yaml_files fs entry
                else if is_yaml_file fs (dtree_path entry)
                     then [fs_resolve fs (dtree_path entry)]
                     else [])"
      by (auto simp: is_yaml_file_def)
  qed
  then show ?case by (simp only: collect_yaml_files.simps)
qed

lemma is_yaml_file_read: "is_yaml_file (fs \<lparr> fs_read_yaml := r \<rparr>) p = is_yaml_file fs p"
  by (simp add: is_yaml_file_def)

lemma probe_extensions_read:
  "probe_extensions (fs \<lparr> fs_read_yaml := r \<rparr>) candidate exts = probe_extensions fs candidate exts"
proof (induction exts)
  case Nil
  then show ?case by simp
next
  case (Cons ext exts)
  have "fs_with_ext (fs \<lparr> fs_read_yaml := r \<rparr>) candidate ext = fs_with_ext fs candidate ext"
    by simp
  then show ?case
    using Cons by (simp only: probe_extensions.simps Let_def is_yaml_file_read
        collect_yaml_files_read) simp
qed

lemma resolve_include_targets_read:
  "resolve_include_targets (fs \<lparr> fs_read_yaml := r \<rparr>) ref base_path
     = resolve_include_targets fs ref base_path"
  by (simp only: resolve_include_targets_def Let_def is_yaml_file_read collect_yaml_files_read
      probe_extensions_read) simp

lemma load_targets_read:
  "load_targets load (fs \<lparr> fs_read_yaml := r \<rparr>) targets combined visited
     = load_targets load fs targets combined visited"
  by (induction targets arbitrary: combined visited) (auto split: sum.splits)

lemma load_includes_read:
  "load_includes load (fs \<lparr> fs_read_yaml := r \<rparr>) resolved refs combined visited
     = load_includes load fs resolved refs combined visited"
proof (induction refs arbitrary: combined visited)
  case Nil
  then show ?case by simp
next
  case (Cons a refs)
  then show ?case
    by (cases a) (auto simp: resolve_include_targets_read load_targets_read split: sum.splits)
qed

lemma dict_pop_drop_blank:
  "dict_pop (map (\<lambda>kv. if fst kv = ''includes'' then (fst kv, g (snd kv)) else kv) data) ''includes''
     = dict_pop data ''includes''"
  by (induction data) (auto simp: dict_pop_def)

lemma dict_get_drop_blank:
  "dict_get (map (\<lambda>kv. if fst kv = ''includes'' then (fst kv, g (snd kv)) else kv) data) ''includes''
     = map_option g (dict_get data ''includes'')"
  by (induction data) (auto simp: dict_get_def)

lemma includes_of_drop_blank:
  "includes_of (map (\<lambda>kv. if fst kv = ''includes''
                          then (fst kv, (case snd kv of
                                           YList refs \<Rightarrow> YList (filter is_reference refs)
                                         | v \<Rightarrow> v))
                          else kv) data)
     = (case includes_of data of YList refs \<Rightarrow> YList (filter is_reference refs) | v \<Rightarrow> v)"
proof (cases "dict_get data ''includes''")
  case None
  then show ?thesis by (simp add: includes_of_def dict_get_drop_blank)
next
  case (Some v)
  then show ?thesis by (cases v) (simp_all add: includes_of_def dict_get_drop_blank)
qed

lemma load_profile_tree_blank:
  "load_profile_tree fuel (without_blank_includes fs) profile_path visited
     = load_profile_tree fuel fs profile_path visited"
proof (induction fuel arbitrary: profile_path visited)
  case 0
  then show ?case by simp
next
  case (Suc n)
  let ?fs = "without_blank_includes fs"
  let ?r = "fs_resolve fs profile_path"
  have load: "load_profile_tree n ?fs = load_profile_tree n fs"
    using Suc by (intro ext)
  have loop: "load_includes (load_profile_tree n ?fs) ?fs ?r refs c v
                = load_includes (load_profile_tree n fs) fs ?r refs c v" for refs c v
    unfolding load by (simp add: without_blank_includes_def load_includes_read)
  have res: "fs_resolve ?fs profile_path = ?r" by (simp add: without_blank_includes_def)
  show ?case
  proof (cases "fs_read_yaml fs ?r")
    case (Inl e)
    then have "fs_read_yaml ?fs ?r = Inl e" by (simp add: without_blank_includes_def)
    then show ?thesis using Inl res by (simp add: Let_def)
  next
    case (Inr document)
    then have rd: "fs_read_yaml ?fs ?r = Inr (drop_blank_includes document)"
      by (simp add: without_blank_includes_def)
    show ?thesis
    proof (cases document)
      case (YMap data)
      let ?data = "map (\<lambda>kv. if fst kv = ''includes''
                          then (fst kv, (case snd kv of
                                           YList refs \<Rightarrow> YList (filter is_reference refs)
                                         | v \<Rightarrow> v))
                          else kv) data"
      have d: "drop_blank_includes document = YMap ?data"
        using YMap by (simp add: drop_blank_includes_def)
      define tail :: "error + ydict \<times> 'a set \<Rightarrow> error + ydict \<times> 'a set" where
        "tail = (\<lambda>x. case x of
                   Inl e \<Rightarrow> Inl e
                 | Inr (combined, visited') \<Rightarrow>
                     (case merge_configs combined (dict_pop data ''includes'') of
                        Inl e \<Rightarrow> Inl e
                      | Inr combined' \<Rightarrow> Inr (combined', visited')))"
      define run where "run = (\<lambda>refs. tail (load_includes (load_profile_tree n fs) fs ?r refs []
                                   (insert ?r visited)))"
      have inc: "(case iterate (includes_of ?data) of Inl e \<Rightarrow> Inl e | Inr refs \<Rightarrow> run refs)
                 = (case iterate (includes_of data) of Inl e \<Rightarrow> Inl e | Inr refs \<Rightarrow> run refs)"
        unfolding includes_of_drop_blank
        by (cases "includes_of data") (simp_all add: run_def load_includes_filter)
      have e: "(data = []) = (?data = [])" by simp
      have lhs: "load_profile_tree (Suc n) ?fs profile_path visited
                 = (if ?r \<in> visited then Inr ([], visited)
                    else case iterate (includes_of ?data) of Inl e \<Rightarrow> Inl e | Inr refs \<Rightarrow> run refs)"
      proof (cases "data = []")
        case True
        then show ?thesis using rd res d loop
          by (simp add: Let_def run_def tail_def cong: sum.case_cong)
      next
        case False
        then have "?data \<noteq> []" by simp
        then show ?thesis using rd res d loop
          by (simp add: Let_def run_def tail_def dict_pop_drop_blank del: map_is_Nil_conv cong: sum.case_cong)
      qed
      have rhs: "load_profile_tree (Suc n) fs profile_path visited
                 = (if ?r \<in> visited then Inr ([], visited)
                    else case iterate (includes_of data) of Inl e \<Rightarrow> Inl e | Inr refs \<Rightarrow> run refs)"
      proof (cases "data = []")
        case True
        then show ?thesis using Inr YMap
          by (simp add: Let_def run_def tail_def cong: sum.case_cong)
      next
        case False
        then show ?thesis using Inr YMap
          by (simp add: Let_def run_def tail_def cong: sum.case_cong)
      qed
      show ?thesis unfolding lhs rhs inc ..
    qed (use Inr rd res loop in \<open>simp_all add: drop_blank_includes_def Let_def includes_of_def dict_get_def\<close>)
  qed
qed

lemma load_profiles_blank:
  "load_profiles fuel (without_blank_includes fs) profiles config visited
     = load_profiles fuel fs profiles config visited"
proof (induction profiles arbitrary: config visited)
  case Nil
  then show ?case by simp
next
  case (Cons profile profiles)
  have "resolve_profile_path (without_blank_includes fs) profile = resolve_profile_path fs profile"
    by (simp add: resolve_profile_path_def without_blank_includes_def Let_def)
  moreover have "fs_exists (without_blank_includes fs) = fs_exists fs"
    by (simp add: without_blank_includes_def)
  ultimately show ?case using Cons load_profile_tree_blank [of fuel fs]
    by (simp split: sum.splits)
qed

lemma load_config_blank:
  "load_config fuel (without_blank_includes fs) profiles = load_config fuel fs profiles"
  by (simp add: load_config_def load_profiles_blank)

lemma load_includes_none:
  assumes "\<forall>r \<in> set refs. \<not> is_reference r"
  shows "load_includes load fs resolved refs combined visited = Inr (combined, visited)"
proof -
  have "filter is_reference refs = []" using assms by (simp add: filter_empty_conv)
  then show ?thesis using load_includes_filter [of load fs resolved refs combined visited]
    by simp
qed

text \<open>
  Claim C8, amended. \<open>resolve_include_targets\<close> rejects a reference that is empty or only
  whitespace with \<open>ValueError\<close>, but \<open>load_profile_tree\<close> never hands it one: its loop
  passes over every entry of \<open>includes\<close> that is not a string or is a blank string
  (\<open>continue\<close>), so the entry raises nothing and contributes nothing. The loop goes on as
  if the entry were not in the list; \<open>load_profile_tree\<close> and \<open>load_config\<close> return, for
  every file system, profile list and budget, what they return when such entries are
  taken out of every document's \<open>includes\<close> list; and a profile whose \<open>includes\<close> list
  holds only such entries loads as its own body, which \<open>load_config\<close> returns normalized,
  not the sentinel.
\<close>

theorem blank_include_skipped:
  "(\<not> is_reference include_ref \<longrightarrow>
      load_includes load fs resolved (before @ include_ref # after) combined visited
        = load_includes load fs resolved (before @ after) combined visited)
   \<and> (strip ref = [] \<longrightarrow>
        \<not> is_reference (YStr ref) \<and> resolve_include_targets fs ref base_path = Inl ValueError)
   \<and> load_profile_tree fuel (without_blank_includes fs) profile_path visited
        = load_profile_tree fuel fs profile_path visited
   \<and> load_config fuel (without_blank_includes fs) profiles = load_config fuel fs profiles
   \<and> (resolve_profile_path fs profile = Inr path \<and> fs_exists fs path
        \<and> fs_read_yaml fs (fs_resolve fs path) = Inr (YMap data)
        \<and> dict_get data ''includes'' = Some (YList refs)
        \<and> (\<forall>r \<in> set refs. \<not> is_reference r) \<longrightarrow>
        (\<exists>tree config.
            merge_configs [] (dict_pop data ''includes'') = Inr tree
          \<and> load_profile_tree (Suc n) fs path {} = Inr (tree, {fs_resolve fs path})
          \<and> merge_configs [] tree = Inr config
          \<and> load_config (Suc n) fs [profile] = Inr (Some (normalize_directives config))))"
proof (intro conjI impI)
  assume "\<not> is_reference include_ref"
  then show "load_includes load fs resolved (before @ include_ref # after) combined visited
        = load_includes load fs resolved (before @ after) combined visited"
    by (rule load_includes_skip_any)
next
  assume "strip ref = []"
  then show "\<not> is_reference (YStr ref)" by (simp add: is_reference_def)
next
  assume "strip ref = []"
  then show "resolve_include_targets fs ref base_path = Inl ValueError"
    by (simp add: resolve_include_targets_def)
next
  show "load_profile_tree fuel (without_blank_includes fs) profile_path visited
        = load_profile_tree fuel fs profile_path visited"
    by (rule load_profile_tree_blank)
next
  show "load_config fuel (without_blank_includes fs) profiles = load_config fuel fs profiles"
    by (rule load_config_blank)
next
  assume a: "resolve_profile_path fs profile = Inr path \<and> fs_exists fs path
        \<and> fs_read_yaml fs (fs_resolve fs path) = Inr (YMap data)
        \<and> dict_get data ''includes'' = Some (YList refs)
        \<and> (\<forall>r \<in> set refs. \<not> is_reference r)"
  have ok: "directives_ok (YMap [])" by simp
  obtain tree where tree: "merge_configs [] (dict_pop data ''includes'') = Inr tree"
    using merge_ok_both(1) [of "[]" "dict_pop data ''includes''"] ok by blast
  obtain config where config: "merge_configs [] tree = Inr config"
    using merge_ok_both(1) [of "[]" tree] ok by blast
  have ne: "data \<noteq> []" using a by (auto simp: dict_get_def)
  have it: "iterate (includes_of data) = Inr refs"
    using a by (simp add: includes_of_def)
  have loop: "load_includes (load_profile_tree n fs) fs (fs_resolve fs path) refs []
                {fs_resolve fs path} = Inr ([], {fs_resolve fs path})"
    using load_includes_none a by blast
  have t: "load_profile_tree (Suc n) fs path {} = Inr (tree, {fs_resolve fs path})"
    using a ne it loop tree by (simp add: Let_def)
  have "load_config (Suc n) fs [profile] = Inr (Some (normalize_directives config))"
    using a t config by (simp add: load_config_def)
  then show "\<exists>tree config.
            merge_configs [] (dict_pop data ''includes'') = Inr tree
          \<and> load_profile_tree (Suc n) fs path {} = Inr (tree, {fs_resolve fs path})
          \<and> merge_configs [] tree = Inr config
          \<and> load_config (Suc n) fs [profile] = Inr (Some (normalize_directives config))"
    using tree t config by blast
qed

theorem blank_include_skipped_witness:
  "load_includes (load_profile_tree 1 (flat_fs example_blank)) (flat_fs example_blank) ''a.yaml''
      ([YStr ''b.yaml''] @ YInt 5 # [YStr []]) [] {''a.yaml''}
     = Inr ([(''directives'', YMap [(''--y'', YInt 2)])], {''a.yaml'', ''b.yaml''})
   \<and> resolve_include_targets (flat_fs example_blank) ''  '' ''a.yaml'' = Inl ValueError
   \<and> load_config 2 (flat_fs example_blank) [''a'']
       = Inr (Some [(''directives'', YMap [(''--y'', YInt 2), (''--x'', YInt 1)])])
   \<and> load_config 2 (without_blank_includes (flat_fs example_blank)) [''a'']
       = Inr (Some [(''directives'', YMap [(''--y'', YInt 2), (''--x'', YInt 1)])])
   \<and> load_config (Suc 0) (flat_fs example_blank) [''b'']
       = Inr (Some [(''directives'', YMap [(''--y'', YInt 2)])])"
proof -
  let ?fs = "flat_fs example_blank"
  have five: "\<not> is_reference (YInt 5)" by (simp add: is_reference_def)
  have blank: "strip ''  '' = []" by (simp add: strip_def is_space_def)
  have rest: "load_includes (load_profile_tree 1 ?fs) ?fs ''a.yaml''
                ([YStr ''b.yaml''] @ [YStr []]) [] {''a.yaml''}
              = Inr ([(''directives'', YMap [(''--y'', YInt 2)])], {''a.yaml'', ''b.yaml''})"
    by code_simp
  have a: "load_config 2 ?fs [''a'']
           = Inr (Some [(''directives'', YMap [(''--y'', YInt 2), (''--x'', YInt 1)])])"
    by code_simp
  have b: "resolve_profile_path ?fs ''b'' = Inr ''b.yaml'' \<and> fs_exists ?fs ''b.yaml''
        \<and> fs_read_yaml ?fs (fs_resolve ?fs ''b.yaml'')
            = Inr (YMap [(''includes'', YList [YNull, YStr [CHR 0x09]]),
                         (''directives'', YMap [(''--y'', YInt 2)])])
        \<and> dict_get [(''includes'', YList [YNull, YStr [CHR 0x09]]),
                     (''directives'', YMap [(''--y'', YInt 2)])] ''includes''
            = Some (YList [YNull, YStr [CHR 0x09]])
        \<and> (\<forall>r \<in> set [YNull, YStr [CHR 0x09]]. \<not> is_reference r)"
    by code_simp
  have body: "merge_configs [] (dict_pop [(''includes'', YList [YNull, YStr [CHR 0x09]]),
                     (''directives'', YMap [(''--y'', YInt 2)])] ''includes'')
                = Inr [(''directives'', YMap [(''--y'', YInt 2)])]"
    by code_simp
  have top: "merge_configs [] [(''directives'', YMap [(''--y'', YInt 2)])]
               = Inr [(''directives'', YMap [(''--y'', YInt 2)])]"
    by code_simp
  have norm: "normalize_directives [(''directives'', YMap [(''--y'', YInt 2)])]
                = [(''directives'', YMap [(''--y'', YInt 2)])]"
    by code_simp
  note inst = blank_include_skipped
    [where fs = "?fs" and include_ref = "YInt 5" and load = "load_profile_tree 1 ?fs"
       and resolved = "''a.yaml''" and before = "[YStr ''b.yaml'']" and after = "[YStr []]"
       and combined = "[]" and visited = "{''a.yaml''}" and ref = "''  ''"
       and base_path = "''a.yaml''" and fuel = 2 and profiles = "[''a'']"
       and profile = "''b''" and path = "''b.yaml''"
       and data = "[(''includes'', YList [YNull, YStr [CHR 0x09]]),
                    (''directives'', YMap [(''--y'', YInt 2)])]"
       and refs = "[YNull, YStr [CHR 0x09]]" and n = 0]
  have 1: "load_includes (load_profile_tree 1 ?fs) ?fs ''a.yaml''
      ([YStr ''b.yaml''] @ YInt 5 # [YStr []]) [] {''a.yaml''}
     = Inr ([(''directives'', YMap [(''--y'', YInt 2)])], {''a.yaml'', ''b.yaml''})"
    using inst five rest by simp
  have 2: "resolve_include_targets ?fs ''  '' ''a.yaml'' = Inl ValueError"
    using inst blank by blast
  have 3: "load_config 2 (without_blank_includes ?fs) [''a'']
       = Inr (Some [(''directives'', YMap [(''--y'', YInt 2), (''--x'', YInt 1)])])"
    using inst a by simp
  have 4: "load_config (Suc 0) ?fs [''b'']
       = Inr (Some [(''directives'', YMap [(''--y'', YInt 2)])])"
  proof -
    obtain tree config where
      "merge_configs [] (dict_pop [(''includes'', YList [YNull, YStr [CHR 0x09]]),
                     (''directives'', YMap [(''--y'', YInt 2)])] ''includes'') = Inr tree"
      "merge_configs [] tree = Inr config"
      "load_config (Suc 0) ?fs [''b''] = Inr (Some (normalize_directives config))"
      using inst b by blast
    then show ?thesis using body top norm by simp
  qed
  show ?thesis using 1 2 3 4 a by blast
qed

text \<open>
  The claim as it is stated fails: a profile whose \<open>includes\<close> holds blank references
  loads, and \<open>load_config\<close> returns its configuration, not \<open>None\<close>.
\<close>

theorem blank_include_counterexample:
  "load_config 1
     (flat_fs [(''claude.yaml'',
                Inr (YMap [(''includes'', YList [YStr ''  '', YStr '''']),
                           (''directives'', YMap [(''--x'', YInt 1)])]))])
     [''claude'']
   = Inr (Some [(''directives'', YMap [(''--x'', YInt 1)])])"
  by code_simp

section \<open>Trimming, splitting and scanning\<close>

lemma strip_sublist: "\<exists>a b. s = a @ strip s @ b"
proof -
  have 1: "s = takeWhile is_space s @ dropWhile is_space s" by simp
  let ?t = "dropWhile is_space s"
  have "rev ?t = takeWhile is_space (rev ?t) @ dropWhile is_space (rev ?t)" by simp
  then have "?t = rev (dropWhile is_space (rev ?t)) @ rev (takeWhile is_space (rev ?t))"
    by (metis rev_append rev_rev_ident)
  then have "?t = strip s @ rev (takeWhile is_space (rev ?t))"
    by (simp add: strip_def)
  then show ?thesis using 1 by (metis append.assoc)
qed

lemma strip_ends:
  assumes "strip s \<noteq> []"
  shows "\<not> is_space (hd (strip s)) \<and> \<not> is_space (last (strip s))"
proof -
  let ?t = "dropWhile is_space s"
  let ?u = "dropWhile is_space (rev ?t)"
  have u: "?u \<noteq> []" using assms by (simp add: strip_def)
  then have hu: "\<not> is_space (hd ?u)" by (rule hd_dropWhile)
  have t: "?t \<noteq> []" using u by (metis dropWhile.simps(1) rev.simps(1))
  then have ht: "\<not> is_space (hd ?t)" by (rule hd_dropWhile)
  have "last (strip s) = hd ?u" using u by (simp add: strip_def last_rev)
  moreover have "hd (strip s) = hd ?t"
  proof -
    have "rev ?t = takeWhile is_space (rev ?t) @ ?u" by simp
    then have "?t = rev ?u @ rev (takeWhile is_space (rev ?t))"
      by (metis rev_append rev_rev_ident)
    moreover have "rev ?u \<noteq> []" using u by simp
    ultimately have "hd ?t = hd (rev ?u)" by (metis hd_append2)
    then show ?thesis by (simp add: strip_def)
  qed
  ultimately show ?thesis using hu ht by simp
qed

lemma split_sep_nonempty: "split_sep s \<noteq> []"
  by (induction s) (auto split: list.splits)

lemma split_sep_head:
  "split_sep s = q # qs \<Longrightarrow>
     (\<exists>b. s = q @ b) \<and> CHR '','' \<notin> set q \<and> CHR ''|'' \<notin> set q"
proof (induction s arbitrary: q qs)
  case Nil
  then show ?case by simp
next
  case (Cons c cs)
  show ?case
  proof (cases "c = CHR '','' \<or> c = CHR ''|''")
    case True
    then show ?thesis using Cons.prems by auto
  next
    case False
    obtain q' qs' where q': "split_sep cs = q' # qs'"
      using split_sep_nonempty [of cs] by (cases "split_sep cs") auto
    then have "q = c # q'" using Cons.prems False by auto
    then show ?thesis using Cons.IH [OF q'] False by auto
  qed
qed

lemma split_sep_piece:
  "p \<in> set (split_sep s) \<Longrightarrow>
     (\<exists>a b. s = a @ p @ b) \<and> CHR '','' \<notin> set p \<and> CHR ''|'' \<notin> set p"
proof (induction s arbitrary: p)
  case Nil
  then show ?case by simp
next
  case (Cons c cs)
  obtain q qs where q: "split_sep cs = q # qs"
    using split_sep_nonempty [of cs] by (cases "split_sep cs") auto
  have tail: "(\<exists>a b. c # cs = a @ p @ b) \<and> CHR '','' \<notin> set p \<and> CHR ''|'' \<notin> set p"
    if mem: "p \<in> set (split_sep cs)"
  proof -
    obtain a b where "cs = a @ p @ b" "CHR '','' \<notin> set p" "CHR ''|'' \<notin> set p"
      using Cons.IH [OF mem] by blast
    then have "c # cs = (c # a) @ p @ b" by simp
    then show ?thesis using \<open>CHR '','' \<notin> set p\<close> \<open>CHR ''|'' \<notin> set p\<close> by blast
  qed
  show ?case
  proof (cases "c = CHR '','' \<or> c = CHR ''|''")
    case True
    then have "p = [] \<or> p \<in> set (split_sep cs)" using Cons.prems by auto
    then show ?thesis
    proof
      assume "p = []"
      then have "c # cs = [] @ p @ (c # cs)" by simp
      then show ?thesis using \<open>p = []\<close> by (metis empty_iff empty_set)
    next
      assume "p \<in> set (split_sep cs)"
      then show ?thesis by (rule tail)
    qed
  next
    case False
    then have "p = c # q \<or> p \<in> set qs" using Cons.prems q by auto
    then show ?thesis
    proof
      assume p: "p = c # q"
      obtain b where "cs = q @ b" "CHR '','' \<notin> set q" "CHR ''|'' \<notin> set q"
        using split_sep_head [OF q] by blast
      then have "c # cs = [] @ p @ b" using p by simp
      then show ?thesis using p False \<open>CHR '','' \<notin> set q\<close> \<open>CHR ''|'' \<notin> set q\<close>
        by (metis set_ConsD)
    next
      assume "p \<in> set qs"
      then have "p \<in> set (split_sep cs)" using q by simp
      then show ?thesis by (rule tail)
    qed
  qed
qed


lemma findall_flags_nonempty_iff:
  "findall_flags s \<noteq> [] \<longleftrightarrow>
     (\<exists>a c b. s = a @ CHR ''-'' # CHR ''-'' # c # b \<and> \<not> is_sep c)"
proof (induction s rule: findall_flags.induct)
  case 1
  then show ?case by simp
next
  case (2 x xs)
  let ?cond = "x = CHR ''-'' \<and> xs \<noteq> [] \<and> hd xs = CHR ''-''
         \<and> takeWhile (\<lambda>x. \<not> is_sep x) (tl xs) \<noteq> []"
  show ?case
  proof (cases ?cond)
    case True
    then obtain c b where tl: "tl xs = c # b" "\<not> is_sep c"
      by (cases "tl xs") (auto split: if_splits)
    then have "x # xs = [] @ CHR ''-'' # CHR ''-'' # c # b"
      using True by (cases xs) auto
    then have "\<exists>a c b. x # xs = a @ CHR ''-'' # CHR ''-'' # c # b \<and> \<not> is_sep c"
      using tl(2) by blast
    moreover have "findall_flags (x # xs) \<noteq> []" using True by simp
    ultimately show ?thesis by blast
  next
    case False
    then have eq: "findall_flags (x # xs) = findall_flags xs" by auto
    have "(\<exists>a c b. x # xs = a @ CHR ''-'' # CHR ''-'' # c # b \<and> \<not> is_sep c)
          \<longleftrightarrow> (\<exists>a c b. xs = a @ CHR ''-'' # CHR ''-'' # c # b \<and> \<not> is_sep c)"
    proof
      assume "\<exists>a c b. x # xs = a @ CHR ''-'' # CHR ''-'' # c # b \<and> \<not> is_sep c"
      then obtain a c b where h: "x # xs = a @ CHR ''-'' # CHR ''-'' # c # b" "\<not> is_sep c"
        by blast
      have "a \<noteq> []"
      proof
        assume "a = []"
        then have "x = CHR ''-''" "xs = CHR ''-'' # c # b" using h(1) by auto
        then show False using False h(2) by simp
      qed
      then obtain a' where "a = x # a'" "xs = a' @ CHR ''-'' # CHR ''-'' # c # b"
        using h(1) by (cases a) auto
      then show "\<exists>a c b. xs = a @ CHR ''-'' # CHR ''-'' # c # b \<and> \<not> is_sep c"
        using h(2) by blast
    next
      assume "\<exists>a c b. xs = a @ CHR ''-'' # CHR ''-'' # c # b \<and> \<not> is_sep c"
      then obtain a c b where "xs = a @ CHR ''-'' # CHR ''-'' # c # b" "\<not> is_sep c" by blast
      then have "x # xs = (x # a) @ CHR ''-'' # CHR ''-'' # c # b" by simp
      then show "\<exists>a c b. x # xs = a @ CHR ''-'' # CHR ''-'' # c # b \<and> \<not> is_sep c"
        using \<open>\<not> is_sep c\<close> by blast
    qed
    then show ?thesis using eq "2.IH"(2) [OF False] by simp
  qed
qed

lemma findall_flags_sublist:
  assumes "findall_flags (a @ p @ b) = []"
  shows "findall_flags p = []"
proof (rule ccontr)
  assume "findall_flags p \<noteq> []"
  then obtain a' c b' where "p = a' @ CHR ''-'' # CHR ''-'' # c # b'" "\<not> is_sep c"
    using findall_flags_nonempty_iff by blast
  then have "a @ p @ b = (a @ a') @ CHR ''-'' # CHR ''-'' # c # (b' @ b)" by simp
  then have "findall_flags (a @ p @ b) \<noteq> []"
    using findall_flags_nonempty_iff \<open>\<not> is_sep c\<close> by blast
  then show False using assms by simp
qed

lemma token_is_flag_token:
  assumes "t \<in> set (findall_flags s)"
  shows "is_flag_token t"
proof -
  obtain w where w: "t = CHR ''-'' # CHR ''-'' # w" "w \<noteq> []" "\<forall>c \<in> set w. \<not> is_sep c"
    using findall_flags_token [OF assms] by blast
  have "\<not> is_sep (CHR ''-'')" by (simp add: is_sep_def is_space_def)
  then show ?thesis using w by (auto simp: is_flag_token_def list_all_iff)
qed

lemma raw_key_tokens_member:
  assumes "k \<in> set (raw_key_tokens raw)"
  shows "is_flag_token k \<or> is_opaque_key k"
proof (cases "nonempty_stripped (findall_flags raw) = []")
  case False
  then have "k \<in> set (nonempty_stripped (findall_flags raw))"
    using assms by (simp add: raw_key_tokens_def)
  then obtain t where "t \<in> set (findall_flags raw)" "k = strip t"
    by (auto simp: nonempty_stripped_def)
  then show ?thesis using token_strip token_is_flag_token by metis
next
  case True
  have none: "findall_flags raw = []"
  proof (rule ccontr)
    assume "findall_flags raw \<noteq> []"
    then obtain t where t: "t \<in> set (findall_flags raw)" by (cases "findall_flags raw") auto
    then have "strip t \<in> set (nonempty_stripped (findall_flags raw))"
      using token_strip [OF t] by (force simp: nonempty_stripped_def)
    then show False using True by simp
  qed
  have "k \<in> set (nonempty_stripped (split_sep raw))"
    using assms True by (simp add: raw_key_tokens_def)
  then obtain p where p: "p \<in> set (split_sep raw)" "k = strip p" "k \<noteq> []"
    by (auto simp: nonempty_stripped_def)
  obtain a b where raw: "raw = a @ p @ b" and nosep: "CHR '','' \<notin> set p" "CHR ''|'' \<notin> set p"
    using split_sep_piece [OF p(1)] by blast
  obtain a' b' where pk: "p = a' @ k @ b'"
    using strip_sublist [of p] p(2) by blast
  have "raw = (a @ a') @ k @ (b' @ b)" using raw pk by simp
  then have "findall_flags k = []"
    using none findall_flags_sublist by metis
  moreover have "CHR '','' \<notin> set k" "CHR ''|'' \<notin> set k"
    using nosep pk by auto
  moreover have "\<not> is_space (hd k) \<and> \<not> is_space (last k)"
    using strip_ends [of p] p(2,3) by simp
  ultimately show ?thesis using p(3) by (simp add: is_opaque_key_def)
qed


section \<open>Merged directives carry no alias metadata\<close>

lemma dict_set_all:
  "list_all Q d \<Longrightarrow> Q (k, v) \<Longrightarrow> list_all Q (dict_set d k v)"
  by (induction d) auto

lemma dict_pop_all: "list_all Q d \<Longrightarrow> list_all Q (dict_pop d k)"
  by (simp add: dict_pop_def list_all_iff)

lemma assign_keys_all:
  "list_all (\<lambda>e. Q (snd e)) d \<Longrightarrow> Q v \<Longrightarrow>
     \<exists>d'. assign_keys (YMap d) ks v = Inr (YMap d') \<and> list_all (\<lambda>e. Q (snd e)) d'"
proof (induction ks arbitrary: d)
  case Nil
  then show ?case by simp
next
  case (Cons a ks)
  have "list_all (\<lambda>e. Q (snd e)) (dict_set d a v)"
    using Cons.prems by (simp add: dict_set_all)
  then show ?case
    using Cons.IH [of "dict_set d a v"] Cons.prems(2) by (simp add: directives_setitem_def)
qed

lemma pop_keys_all:
  "list_all (\<lambda>e. Q (snd e)) d \<Longrightarrow>
     \<exists>d'. pop_keys (YMap d) ks = Inr (YMap d') \<and> list_all (\<lambda>e. Q (snd e)) d'"
proof (induction ks arbitrary: d)
  case Nil
  then show ?case by simp
next
  case (Cons a ks)
  have "list_all (\<lambda>e. Q (snd e)) (dict_pop d a)"
    using Cons.prems by (simp add: dict_pop_all)
  then show ?case
    using Cons.IH [of "dict_pop d a"] by (simp add: directives_pop_def)
qed

lemma clean_no_alias_metadata: "no_alias_metadata (YMap (clean_directive_config body))"
proof -
  have "\<And>k. k = ''aliases'' \<or> k = ''variations'' \<Longrightarrow>
          map_of (filter (\<lambda>kv. fst kv \<noteq> ''aliases'' \<and> fst kv \<noteq> ''variations'') body) k = None"
    by (induction body) auto
  then show ?thesis
    by (simp add: no_alias_metadata_def clean_directive_config_def dict_get_def)
qed

lemma merge_directive_clean:
  assumes "list_all (\<lambda>e. no_alias_metadata (snd e)) d"
  shows "\<exists>d'. merge_directive (YMap d) entry = Inr (YMap d')
              \<and> list_all (\<lambda>e. no_alias_metadata (snd e)) d'"
proof (cases "snd entry = YNull")
  case True
  then show ?thesis
    using pop_keys_all [of no_alias_metadata "dict_pop d (fst entry)"
        "expand_flag_keys (fst entry) YNull"] assms
    by (simp add: merge_directive_def directives_pop_def dict_pop_all Let_def)
next
  case False
  show ?thesis
  proof (cases "\<exists>body. snd entry = YMap body")
    case True
    then obtain body where body: "snd entry = YMap body" by blast
    then show ?thesis
      using assign_keys_all [OF assms clean_no_alias_metadata [of body],
          of "expand_flag_keys (fst entry) (snd entry)"]
      by (simp add: merge_directive_def Let_def)
  next
    case notmap: False
    have q: "no_alias_metadata (snd entry)"
      using notmap by (cases "snd entry") (simp_all add: no_alias_metadata_def)
    have "merge_directive (YMap d) entry
            = assign_keys (YMap d) (expand_flag_keys (fst entry) (snd entry)) (snd entry)"
      using False notmap by (cases "snd entry") (simp_all add: merge_directive_def Let_def)
    then show ?thesis
      using assign_keys_all [OF assms q, of "expand_flag_keys (fst entry) (snd entry)"]
      by simp
  qed
qed

lemma merge_directives_clean:
  assumes "list_all (\<lambda>e. no_alias_metadata (snd e)) d"
  shows "\<exists>d'. merge_directives (YMap d) entries = Inr (YMap d')
              \<and> list_all (\<lambda>e. no_alias_metadata (snd e)) d'"
  using assms
proof (induction entries arbitrary: d)
  case Nil
  then show ?case by simp
next
  case (Cons e entries)
  obtain d1 where "merge_directive (YMap d) e = Inr (YMap d1)"
    "list_all (\<lambda>e. no_alias_metadata (snd e)) d1"
    using merge_directive_clean [OF Cons.prems] by blast
  then show ?case using Cons.IH [of d1] by simp
qed

lemma merge_configs_no_directives:
  assumes "\<forall>dov. dict_get overlay ''directives'' \<noteq> Some (YMap dov)"
      and "merge_configs base overlay = Inr result"
  shows "dict_get result ''directives'' = dict_get base ''directives''"
proof -
  have "merge_directives_into base overlay = Inr base"
    using assms(1) by (auto simp: merge_directives_into_def split: option.splits yval.splits)
  then have "merge_items base overlay = Inr result"
    using assms(2) by (simp add: merge_configs.simps)
  then show ?thesis by (rule merge_items_keeps_directives)
qed

lemma merge_configs_clean:
  assumes ok: "directives_ok (YMap base)" and clean: "directives_clean base"
      and merged: "merge_configs base overlay = Inr result"
  shows "directives_clean result"
proof (cases "\<exists>dov. dict_get overlay ''directives'' = Some (YMap dov)")
  case False
  then show ?thesis
    using merge_configs_no_directives [OF _ merged] clean by (simp add: directives_clean_def)
next
  case True
  then obtain dov where dov: "dict_get overlay ''directives'' = Some (YMap dov)" by blast
  obtain bd where bd: "base_directives base = YMap bd"
    "list_all (\<lambda>e. no_alias_metadata (snd e)) bd"
  proof (cases "dict_get base ''directives''")
    case None
    then show ?thesis using that [of "[]"] by (simp add: base_directives_def)
  next
    case (Some v)
    then obtain d where "v = YMap d"
      using directives_ok_get [OF ok Some] by (cases v) (simp_all add: is_mapping_def)
    then show ?thesis using that [of d] Some clean
      by (simp add: base_directives_def directives_clean_def)
  qed
  obtain v where v: "merge_directives (YMap bd) dov = Inr v"
    "dict_get result ''directives'' = Some v"
    using merge_configs_directives [OF dov merged] bd(1) by (auto simp: base_directives_def)
  then show ?thesis
    using merge_directives_clean [OF bd(2), of dov] by (auto simp: directives_clean_def)
qed

lemma load_profiles_invariant:
  assumes "load_profiles fuel fs profiles config visited = Inr (c, V)"
      and "directives_ok (YMap config)" and "directives_clean config"
  shows "directives_ok (YMap c) \<and> directives_clean c"
  using assms
proof (induction profiles arbitrary: config visited)
  case Nil
  then show ?case by simp
next
  case (Cons profile profiles)
  from Cons.prems(1) obtain tree visited' config' where
    step: "merge_configs config tree = Inr config'"
      "load_profiles fuel fs profiles config' visited' = Inr (c, V)"
    by (auto split: sum.splits if_splits prod.splits)
  have "directives_ok (YMap config')"
    using merge_ok_both(1) [of config tree] Cons.prems(2) step(1) by auto
  moreover have "directives_clean config'"
    using merge_configs_clean [OF Cons.prems(2,3) step(1)] .
  ultimately show ?case using Cons.IH [OF step(2)] by blast
qed

section \<open>The keys of the normalized directives\<close>


lemma dict_set_keys: "fst ` set (dict_set d k v) = insert k (fst ` set d)"
  by (induction d k v rule: dict_set.induct) (simp_all add: insert_commute)

lemma assign_all_keys: "fst ` set (assign_all n ks v) = fst ` set n \<union> set ks"
  by (induction ks arbitrary: n) (auto simp: dict_set_keys)

lemma normalize_entries_keys:
  "fst ` set (normalize_entries n es) =
     fst ` set n \<union> (\<Union>e \<in> set es. set (expand_flag_keys (fst e) (snd e)))"
  by (induction n es rule: normalize_entries.induct) (auto simp: assign_all_keys)

lemma clean_entry_keys:
  assumes "no_alias_metadata d"
  shows "set (expand_flag_keys raw d) = set (raw_key_tokens raw)"
  using assms
  by (cases d) (auto simp: expand_flag_keys_def no_alias_metadata_def alias_keys_def)

text \<open>
  Claim C7, amended. After a successful \<open>load_config\<close>, every key of the normalized
  \<open>directives\<close> mapping is a flag token or an opaque key. It is a flag token whenever the
  key it was expanded from contains one; otherwise \<open>expand_flag_keys\<close> falls back to
  splitting at commas and pipes, and the key is a trimmed, non-empty piece: it has no
  comma and no pipe, but it need not start with two dashes and may hold whitespace
  inside.
\<close>

theorem normalized_keys:
  assumes "load_config fuel fs profiles = Inr (Some config)"
      and "dict_get config ''directives'' = Some (YMap ds)"
      and "k \<in> fst ` set ds"
  shows "is_flag_token k \<or> is_opaque_key k"
proof -
  obtain c0 V where c0: "load_profiles fuel fs profiles [] {} = Inr (c0, V)"
    "config = normalize_directives c0"
    using assms(1)
    by (auto simp: load_config_def split: if_splits sum.splits error.splits prod.splits)
  have inv: "directives_clean c0"
    using load_profiles_invariant [OF c0(1)] by (simp add: directives_clean_def dict_get_def)
  show ?thesis
  proof (cases "\<exists>ds0. dict_get c0 ''directives'' = Some (YMap ds0)")
    case False
    then have "config = c0"
      using c0(2) by (auto simp: normalize_directives_def split: option.splits yval.splits)
    then show ?thesis using assms(2) False by simp
  next
    case True
    then obtain ds0 where ds0: "dict_get c0 ''directives'' = Some (YMap ds0)" by blast
    then have "config = dict_set c0 ''directives'' (YMap (normalize_entries [] ds0))"
      using c0(2) by (simp add: normalize_directives_def)
    then have "ds = normalize_entries [] ds0"
      using assms(2) by (simp add: dict_get_dict_set)
    then obtain e where e: "e \<in> set ds0" "k \<in> set (expand_flag_keys (fst e) (snd e))"
      using assms(3) by (auto simp: normalize_entries_keys)
    have "no_alias_metadata (snd e)"
      using inv ds0 e(1) by (simp add: directives_clean_def list_all_iff)
    then have "k \<in> set (raw_key_tokens (fst e))"
      using e(2) clean_entry_keys by blast
    then show ?thesis by (rule raw_key_tokens_member)
  qed
qed


theorem normalized_keys_witness:
  "load_config 1
     (flat_fs [(''claude.yaml'',
                Inr (YMap [(''directives'',
                            YMap [(''--x|--y'', YMap [(''aliases'', YList [YStr ''fix it'']),
                                                     (''mode'', YInt 1)])])]))])
     [''claude'']
   = Inr (Some [(''directives'',
                 YMap [(''--x'', YMap [(''mode'', YInt 1)]), (''--y'', YMap [(''mode'', YInt 1)]),
                       (''fix it'', YMap [(''mode'', YInt 1)])])])
   \<and> (is_flag_token ''--y'' \<or> is_opaque_key ''--y'')
   \<and> (is_flag_token ''fix it'' \<or> is_opaque_key ''fix it'')"
proof -
  let ?ds = "[(''--x'', YMap [(''mode'', YInt 1)]), (''--y'', YMap [(''mode'', YInt 1)]),
              (''fix it'', YMap [(''mode'', YInt 1)])]"
  have l: "load_config 1
     (flat_fs [(''claude.yaml'',
                Inr (YMap [(''directives'',
                            YMap [(''--x|--y'', YMap [(''aliases'', YList [YStr ''fix it'']),
                                                     (''mode'', YInt 1)])])]))])
     [''claude'']
   = Inr (Some [(''directives'', YMap ?ds)])"
    by code_simp
  have d: "dict_get [(''directives'', YMap ?ds)] ''directives'' = Some (YMap ?ds)"
    by (simp add: dict_get_def)
  have "''--y'' \<in> fst ` set ?ds" and "''fix it'' \<in> fst ` set ?ds"
    by simp_all
  then show ?thesis
    using l normalized_keys [OF l d, of "''--y''"] normalized_keys [OF l d, of "''fix it''"]
    by simp
qed

text \<open>
  The claim as it is stated fails: the keys \<open>quick fix\<close> and \<open>review\<close> of the normalized
  mapping below do not start with two dashes, and the first holds a space.
\<close>

theorem normalized_keys_counterexample:
  "load_config 1
     (flat_fs [(''claude.yaml'',
                Inr (YMap [(''directives'', YMap [(''quick fix | review'', YInt 1)])]))])
     [''claude'']
   = Inr (Some [(''directives'', YMap [(''quick fix'', YInt 1), (''review'', YInt 1)])])
   \<and> take 2 ''quick fix'' \<noteq> ''--'' \<and> CHR '' '' \<in> set ''quick fix'' \<and> is_space CHR '' ''"
  by code_simp

section \<open>A file's own body is merged last\<close>

lemma merge_items_step:
  assumes "merge_items result ((key, v) # items) = Inr r"
  shows "\<exists>result'. merge_items result' items = Inr r
           \<and> (\<forall>k. k \<noteq> key \<longrightarrow> dict_get result' k = dict_get result k)
           \<and> (key \<noteq> ''directives'' \<and> \<not> is_mapping v \<longrightarrow>
                dict_get result' key = (if v = YNull then None else Some v))"
proof (cases "key = ''directives''")
  case True
  then show ?thesis using assms by auto
next
  case False
  show ?thesis
  proof (cases v)
    case YNull
    then show ?thesis using assms False
      by (intro exI [of _ "dict_pop result key"]) (simp add: dict_get_dict_pop)
  next
    case (YMap m)
    then obtain merged where
      "merge_items (dict_set result key (YMap merged)) items = Inr r"
      using assms False by (auto split: sum.splits)
    then show ?thesis using YMap
      by (intro exI [of _ "dict_set result key (YMap merged)"])
         (simp add: dict_get_dict_set is_mapping_def)
  qed (use assms False in \<open>(intro exI [of _ "dict_set result key v"],
         simp add: dict_get_dict_set)+\<close>)
qed

lemma merge_items_frame:
  "merge_items result items = Inr r \<Longrightarrow> key \<notin> fst ` set items \<Longrightarrow>
     dict_get r key = dict_get result key"
proof (induction items arbitrary: result)
  case Nil
  then show ?case by simp
next
  case (Cons a items)
  obtain k v where a: "a = (k, v)" by (cases a)
  obtain result' where r: "merge_items result' items = Inr r"
    "\<forall>k'. k' \<noteq> k \<longrightarrow> dict_get result' k' = dict_get result k'"
    using merge_items_step [of result k v items r] Cons.prems(1) a by blast
  have "dict_get r key = dict_get result' key"
    using Cons.IH [OF r(1)] Cons.prems(2) by simp
  then show ?case using r(2) Cons.prems(2) a by simp
qed

lemma merge_items_last:
  assumes "merge_items result (pre @ (key, v) # post) = Inr r"
      and "key \<noteq> ''directives''" and "\<not> is_mapping v" and "key \<notin> fst ` set post"
  shows "dict_get r key = (if v = YNull then None else Some v)"
  using assms(1)
proof (induction pre arbitrary: result)
  case Nil
  obtain result' where r: "merge_items result' post = Inr r"
    "dict_get result' key = (if v = YNull then None else Some v)"
    using merge_items_step [of result key v post r] Nil assms(2,3) by auto
  show ?case using merge_items_frame [OF r(1) assms(4)] r(2) by simp
next
  case (Cons a pre)
  obtain k' v' where a: "a = (k', v')" by (cases a)
  obtain result' where "merge_items result' (pre @ (key, v) # post) = Inr r"
    using merge_items_step [of result k' v' "pre @ (key, v) # post" r] Cons.prems a by auto
  then show ?case by (rule Cons.IH)
qed

lemma load_targets_ok:
  assumes "load_targets load fs targets combined visited = Inr (c, V)"
      and "directives_ok (YMap combined)"
  shows "directives_ok (YMap c)"
  using assms
proof (induction targets arbitrary: combined visited)
  case Nil
  then show ?case by simp
next
  case (Cons t targets)
  from Cons.prems(1) obtain tree visited' combined' where
    step: "merge_configs combined tree = Inr combined'"
      "load_targets load fs targets combined' visited' = Inr (c, V)"
    by (auto split: sum.splits if_splits prod.splits)
  have "directives_ok (YMap combined')"
    using merge_ok_both(1) [of combined tree] Cons.prems(2) step(1) by auto
  then show ?case using Cons.IH [OF step(2)] by blast
qed

lemma load_includes_ok:
  assumes "load_includes load fs resolved refs combined visited = Inr (c, V)"
      and "directives_ok (YMap combined)"
  shows "directives_ok (YMap c)"
  using assms
proof (induction refs arbitrary: combined visited)
  case Nil
  then show ?case by simp
next
  case (Cons i refs)
  show ?case
  proof (cases "\<exists>s. i = YStr s \<and> strip s \<noteq> []")
    case False
    then have "load_includes load fs resolved (i # refs) combined visited
               = load_includes load fs resolved refs combined visited"
      by (cases i) auto
    then show ?thesis using Cons by simp
  next
    case True
    then obtain s where s: "i = YStr s" "strip s \<noteq> []" by blast
    from Cons.prems(1) s obtain targets combined' visited' where
      step: "load_targets load fs targets combined visited = Inr (combined', visited')"
        "load_includes load fs resolved refs combined' visited' = Inr (c, V)"
      by (auto split: sum.splits prod.splits)
    have "directives_ok (YMap combined')"
      using load_targets_ok [OF step(1) Cons.prems(2)] .
    then show ?thesis using Cons.IH [OF step(2)] by blast
  qed
qed

text \<open>
  Claim C5. When \<open>load_profile_tree\<close> loads a file (one not visited before, whose document
  is a mapping), the tree it returns is \<open>merge_configs combined body\<close>: \<open>combined\<close> is what
  the loop over the file's includes has built, \<open>body\<close> is the document without its
  \<open>includes\<close> field, and the body is the overlay. So the body decides: under every key
  that an entry of the file's own \<open>directives\<close> touches, the tree's \<open>directives\<close> holds
  what the last such entry leaves there, whatever the includes bound and in whatever
  order they came; and every other top-level key that the body binds to a value that is
  not a mapping holds that value (no entry, when the value is null).
\<close>

theorem own_body_takes_precedence:
  assumes load: "load_profile_tree (Suc n) fs profile_path visited = Inr (tree, visited')"
      and fresh: "fs_resolve fs profile_path \<notin> visited"
      and doc: "fs_read_yaml fs (fs_resolve fs profile_path) = Inr (YMap data)"
  shows "(\<exists>refs combined.
            iterate (includes_of data) = Inr refs
          \<and> load_includes (load_profile_tree n fs) fs (fs_resolve fs profile_path) refs []
               (insert (fs_resolve fs profile_path) visited) = Inr (combined, visited')
          \<and> merge_configs combined (dict_pop data ''includes'') = Inr tree)
       \<and> (\<forall>pre e post k.
            dict_get data ''directives'' = Some (YMap (pre @ e # post))
            \<and> k \<in> entry_keys e \<and> (\<forall>e' \<in> set post. k \<notin> entry_keys e') \<longrightarrow>
            (\<exists>ds. dict_get tree ''directives'' = Some (YMap ds)
                 \<and> dict_get ds k = entry_binding e))
       \<and> (\<forall>pre key v post.
            dict_pop data ''includes'' = pre @ (key, v) # post
            \<and> key \<noteq> ''directives'' \<and> key \<notin> fst ` set post \<and> \<not> is_mapping v \<longrightarrow>
            dict_get tree key = (if v = YNull then None else Some v))"
proof -
  let ?resolved = "fs_resolve fs profile_path"
  let ?body = "dict_pop data ''includes''"
  have data: "(if truthy (YMap data) then YMap data else YMap []) = YMap data" by simp
  obtain refs combined where
    inc: "iterate (includes_of data) = Inr refs"
    and loop: "load_includes (load_profile_tree n fs) fs ?resolved refs []
                 (insert ?resolved visited) = Inr (combined, visited')"
    and merged: "merge_configs combined ?body = Inr tree"
    using load fresh doc
    by (simp add: Let_def data del: truthy.simps split: sum.splits prod.splits)
  have ok: "directives_ok (YMap combined)"
    using load_includes_ok [OF loop] by simp
  have dirs: "\<exists>ds. dict_get tree ''directives'' = Some (YMap ds) \<and> dict_get ds k = entry_binding e"
    if h: "dict_get data ''directives'' = Some (YMap (pre @ e # post))"
      "k \<in> entry_keys e" "\<forall>e' \<in> set post. k \<notin> entry_keys e'" for pre e post k
  proof -
    have o: "dict_get ?body ''directives'' = Some (YMap (pre @ e # post))"
      using h(1) by (simp add: dict_get_dict_pop)
    obtain bd where bd: "base_directives combined = YMap bd"
    proof (cases "dict_get combined ''directives''")
      case None
      then show ?thesis using that [of "[]"] by (simp add: base_directives_def)
    next
      case (Some v)
      then show ?thesis
        using directives_ok_get [OF ok Some] that by (cases v) (simp_all add: is_mapping_def base_directives_def)
    qed
    obtain v where v: "merge_directives (YMap bd) (pre @ e # post) = Inr v"
      "dict_get tree ''directives'' = Some v"
      using merge_configs_directives [OF o merged] bd by (auto simp: base_directives_def)
    obtain ds where ds: "v = YMap ds"
      using merge_directives_mapping [OF v(1)] by blast
    have "dict_get ds k = entry_binding e"
      using merge_directives_last [of bd pre e post ds k] v(1) ds h(2,3) by simp
    then show ?thesis using v(2) ds by simp
  qed
  have generic: "dict_get tree key = (if v = YNull then None else Some v)"
    if h: "?body = pre @ (key, v) # post" "key \<noteq> ''directives''" "key \<notin> fst ` set post"
      "\<not> is_mapping v" for pre key v post
  proof -
    obtain r0 where "merge_items r0 ?body = Inr tree"
      using merged by (auto simp: merge_configs.simps split: sum.splits)
    then show ?thesis
      using merge_items_last [of r0 pre key v post tree] h by simp
  qed
  show ?thesis
    using inc loop merged dirs generic by blast
qed


theorem own_body_takes_precedence_witness:
  "load_profile_tree (Suc 1) (flat_fs example_own) ''a.yaml'' {}
     = Inr ([(''directives'', YMap [(''--x'', YInt 1), (''--y'', YInt 2)]),
             (''mode'', YStr ''own'')], {''b.yaml'', ''a.yaml''})
   \<and> (\<exists>ds. dict_get [(''directives'', YMap [(''--x'', YInt 1), (''--y'', YInt 2)]),
                       (''mode'', YStr ''own'')] ''directives'' = Some (YMap ds)
         \<and> dict_get ds ''--x'' = Some (YInt 1))
   \<and> dict_get [(''directives'', YMap [(''--x'', YInt 1), (''--y'', YInt 2)]),
                (''mode'', YStr ''own'')] ''mode'' = Some (YStr ''own'')"
proof -
  let ?tree = "[(''directives'', YMap [(''--x'', YInt 1), (''--y'', YInt 2)]),
                (''mode'', YStr ''own'')]"
  let ?data = "[(''includes'', YList [YStr ''b.yaml'']),
                (''directives'', YMap [(''--x'', YInt 1)]), (''mode'', YStr ''own'')]"
  have l: "load_profile_tree (Suc 1) (flat_fs example_own) ''a.yaml'' {}
             = Inr (?tree, {''b.yaml'', ''a.yaml''})"
    by code_simp
  have f: "fs_resolve (flat_fs example_own) ''a.yaml'' \<notin> {}" by simp
  have d: "fs_read_yaml (flat_fs example_own) (fs_resolve (flat_fs example_own) ''a.yaml'')
             = Inr (YMap ?data)"
    by (simp add: flat_fs_def example_own_def)
  note t = own_body_takes_precedence [OF l f d]
  have e: "''--x'' \<in> entry_keys (''--x'', YInt 1)"
    unfolding entry_keys_def by code_simp
  have "dict_get ?data ''directives'' = Some (YMap ([] @ (''--x'', YInt 1) # []))"
    by (simp add: dict_get_def)
  then have 1: "\<exists>ds. dict_get ?tree ''directives'' = Some (YMap ds)
                  \<and> dict_get ds ''--x'' = entry_binding (''--x'', YInt 1)"
    using t e by (metis empty_iff empty_set)
  have "dict_pop ?data ''includes''
          = [(''directives'', YMap [(''--x'', YInt 1)])] @ (''mode'', YStr ''own'') # []"
    by (simp add: dict_pop_def)
  moreover have "''mode'' \<noteq> ''directives''" "''mode'' \<notin> fst ` set ([] :: ydict)"
    "\<not> is_mapping (YStr ''own'')"
    by (simp_all add: is_mapping_def)
  ultimately have 2: "dict_get ?tree ''mode''
                        = (if YStr ''own'' = YNull then None else Some (YStr ''own''))"
    using t by metis
  show ?thesis
    using l 1 2 by (simp add: entry_binding_def)
qed

section \<open>What the merge and the include resolver can raise\<close>

lemma merge_directive_error:
  "merge_directive directives entry = Inl e \<Longrightarrow> e \<in> {TypeError, AttributeError}"
proof -
  have a: "\<And>ds ks v. assign_keys ds ks v = Inl e \<Longrightarrow> e \<in> {TypeError, AttributeError}"
  proof -
    fix ds ks v show "assign_keys ds ks v = Inl e \<Longrightarrow> e \<in> {TypeError, AttributeError}"
      by (induction ks arbitrary: ds)
         (auto simp: directives_setitem_def split: sum.splits yval.splits)
  qed
  have p: "\<And>ds ks. pop_keys ds ks = Inl e \<Longrightarrow> e \<in> {TypeError, AttributeError}"
  proof -
    fix ds ks show "pop_keys ds ks = Inl e \<Longrightarrow> e \<in> {TypeError, AttributeError}"
      by (induction ks arbitrary: ds)
         (auto simp: directives_pop_def split: sum.splits yval.splits)
  qed
  assume "merge_directive directives entry = Inl e"
  then show ?thesis
    using a p
    by (auto simp: merge_directive_def Let_def directives_pop_def
        split: yval.splits sum.splits)
qed

lemma merge_directives_error:
  "merge_directives directives entries = Inl e \<Longrightarrow> e \<in> {TypeError, AttributeError}"
  by (induction entries arbitrary: directives)
     (auto split: sum.splits dest: merge_directive_error)

lemma merge_error_both:
  "merge_configs base overlay = Inl e \<longrightarrow> e \<in> {TypeError, AttributeError}"
  "merge_items result items = Inl e \<longrightarrow> e \<in> {TypeError, AttributeError}"
proof (induction base overlay and result items rule: merge_configs_merge_items.induct)
  case (1 base overlay)
  show ?case
  proof
    assume m: "merge_configs base overlay = Inl e"
    show "e \<in> {TypeError, AttributeError}"
    proof (cases "merge_directives_into base overlay")
      case (Inl e')
      then have "e' = e" using m by (simp add: merge_configs.simps)
      then show ?thesis using Inl
        by (auto simp: merge_directives_into_def Let_def
            split: option.splits yval.splits sum.splits dest: merge_directives_error)
    next
      case (Inr r)
      then show ?thesis using m "1.IH" [OF Inr] by (simp add: merge_configs.simps)
    qed
  qed
next
  case (2 result)
  then show ?case by simp
next
  case (3 result key v items)
  show ?case
  proof
    assume m: "merge_items result ((key, v) # items) = Inl e"
    show "e \<in> {TypeError, AttributeError}"
    proof (cases "key = ''directives''")
      case True
      then show ?thesis using "3.IH"(1) m by simp
    next
      case False
      note neq = False
      show ?thesis
      proof (cases v)
        case YNull
        then show ?thesis using "3.IH"(2) [OF neq YNull] m neq by simp
      next
        case (YMap x)
        show ?thesis
        proof (cases "merge_configs (case dict_get result key of Some (YMap existing) \<Rightarrow> existing | _ \<Rightarrow> []) x")
          case (Inl e')
          then show ?thesis using "3.IH"(7) [OF neq YMap] m neq YMap by simp
        next
          case (Inr merged)
          then show ?thesis using "3.IH"(8) [OF neq YMap Inr] m neq YMap by simp
        qed
      next
        case (YBool b)
        then show ?thesis using "3.IH"(3) [OF neq YBool] m neq by simp
      next
        case (YInt i)
        then show ?thesis using "3.IH"(4) [OF neq YInt] m neq by simp
      next
        case (YStr s)
        then show ?thesis using "3.IH"(5) [OF neq YStr] m neq by simp
      next
        case (YList xs)
        then show ?thesis using "3.IH"(6) [OF neq YList] m neq by simp
      qed
    qed
  qed
qed

lemma merge_configs_fuel: "merge_configs base overlay \<noteq> Inl OutOfFuel"
  using merge_error_both(1) [of base overlay OutOfFuel] by auto

lemma probe_extensions_error:
  "probe_extensions fs candidate exts = Inl e \<Longrightarrow> e = FileNotFoundError"
  by (induction exts) (auto simp: Let_def split: if_splits)

lemma resolve_include_targets_error:
  "resolve_include_targets fs ref base = Inl e \<Longrightarrow> e \<in> {ValueError, FileNotFoundError}"
  by (auto simp: resolve_include_targets_def Let_def split: if_splits
      dest: probe_extensions_error)


lemma load_targets_visited:
  assumes mono: "\<forall>t v x V. load t v = Inr (x, V) \<longrightarrow> v \<subseteq> V"
      and "load_targets load fs targets combined visited = Inr (c, V)"
  shows "visited \<subseteq> V"
  using assms(2)
proof (induction targets arbitrary: combined visited)
  case Nil
  then show ?case by simp
next
  case (Cons t targets)
  from Cons.prems obtain tree visited' combined' where
    step: "load t visited = Inr (tree, visited')"
      "load_targets load fs targets combined' visited' = Inr (c, V)"
    by (auto split: sum.splits if_splits prod.splits)
  have "visited \<subseteq> visited'" using mono step(1) by blast
  then show ?case using Cons.IH [OF step(2)] by blast
qed

lemma load_includes_visited:
  assumes mono: "\<forall>t v x V. load t v = Inr (x, V) \<longrightarrow> v \<subseteq> V"
      and "load_includes load fs resolved refs combined visited = Inr (c, V)"
  shows "visited \<subseteq> V"
  using assms(2)
proof (induction refs arbitrary: combined visited)
  case Nil
  then show ?case by simp
next
  case (Cons i refs)
  show ?case
  proof (cases "\<exists>s. i = YStr s \<and> strip s \<noteq> []")
    case False
    then have "load_includes load fs resolved (i # refs) combined visited
               = load_includes load fs resolved refs combined visited"
      by (cases i) auto
    then show ?thesis using Cons by simp
  next
    case True
    then obtain s where s: "i = YStr s" "strip s \<noteq> []" by blast
    from Cons.prems s obtain targets combined' visited' where
      step: "load_targets load fs targets combined visited = Inr (combined', visited')"
        "load_includes load fs resolved refs combined' visited' = Inr (c, V)"
      by (auto split: sum.splits prod.splits)
    have "visited \<subseteq> visited'" using load_targets_visited [OF mono step(1)] .
    then show ?thesis using Cons.IH [OF step(2)] by blast
  qed
qed

lemma load_profile_tree_visited:
  "load_profile_tree n fs p v = Inr (t, V) \<Longrightarrow> insert (fs_resolve fs p) v \<subseteq> V"
proof (induction n arbitrary: p v t V)
  case 0
  then show ?case by simp
next
  case (Suc n)
  have mono: "\<forall>t v x V. load_profile_tree n fs t v = Inr (x, V) \<longrightarrow> v \<subseteq> V"
    using Suc.IH by blast
  show ?case
  proof (cases "fs_resolve fs p \<in> v")
    case True
    then show ?thesis using Suc.prems by auto
  next
    case False
    from Suc.prems False obtain refs combined where
      "load_includes (load_profile_tree n fs) fs (fs_resolve fs p) refs []
         (insert (fs_resolve fs p) v) = Inr (combined, V)"
      by (auto simp: Let_def split: sum.splits prod.splits yval.splits if_splits)
    then show ?thesis using load_includes_visited [OF mono] by blast
  qed
qed

lemma load_targets_fuel:
  assumes fuel: "\<forall>t v'. v0 \<subseteq> v' \<longrightarrow> load t v' \<noteq> Inl OutOfFuel"
      and mono: "\<forall>t v x V. load t v = Inr (x, V) \<longrightarrow> v \<subseteq> V"
      and "v0 \<subseteq> visited"
  shows "load_targets load fs targets combined visited \<noteq> Inl OutOfFuel"
  using assms(3)
proof (induction targets arbitrary: combined visited)
  case Nil
  then show ?case by simp
next
  case (Cons t targets)
  show ?case
  proof (cases "load t visited")
    case (Inl e)
    then have "e \<noteq> OutOfFuel" using fuel Cons.prems by auto
    then show ?thesis using Inl by auto
  next
    case (Inr r)
    obtain tree visited' where r: "r = (tree, visited')" by (cases r)
    have "v0 \<subseteq> visited'" using mono Inr r Cons.prems by blast
    then have "load_targets load fs targets c visited' \<noteq> Inl OutOfFuel" for c
      using Cons.IH by blast
    then show ?thesis using Inr r merge_configs_fuel
      by (auto split: sum.splits)
  qed
qed

lemma load_includes_fuel:
  assumes fuel: "\<forall>t v'. v0 \<subseteq> v' \<longrightarrow> load t v' \<noteq> Inl OutOfFuel"
      and mono: "\<forall>t v x V. load t v = Inr (x, V) \<longrightarrow> v \<subseteq> V"
      and "v0 \<subseteq> visited"
  shows "load_includes load fs resolved refs combined visited \<noteq> Inl OutOfFuel"
  using assms(3)
proof (induction refs arbitrary: combined visited)
  case Nil
  then show ?case by simp
next
  case (Cons i refs)
  show ?case
  proof (cases "\<exists>s. i = YStr s \<and> strip s \<noteq> []")
    case False
    then have "load_includes load fs resolved (i # refs) combined visited
               = load_includes load fs resolved refs combined visited"
      by (cases i) auto
    then show ?thesis using Cons by simp
  next
    case True
    then obtain s where s: "i = YStr s" "strip s \<noteq> []" by blast
    show ?thesis
    proof (cases "resolve_include_targets fs s resolved")
      case (Inl e)
      then show ?thesis using s resolve_include_targets_error [OF Inl] by auto
    next
      case targets: (Inr targets)
      show ?thesis
      proof (cases "load_targets load fs targets combined visited")
        case (Inl e)
        then have "e \<noteq> OutOfFuel"
          using load_targets_fuel [OF fuel mono Cons.prems, of fs targets combined] by auto
        then show ?thesis using s targets Inl by auto
      next
        case (Inr r)
        obtain combined' visited' where r: "r = (combined', visited')" by (cases r)
        have "visited \<subseteq> visited'"
          using load_targets_visited [OF mono] Inr r by blast
        then have "v0 \<subseteq> visited'" using Cons.prems by blast
        then show ?thesis using Cons.IH s targets Inr r by simp
      qed
    qed
  qed
qed

lemma load_profile_tree_fuel:
  assumes "finite (readable fs)"
  shows "card (readable fs - visited) < fuel \<Longrightarrow>
           load_profile_tree fuel fs p visited \<noteq> Inl OutOfFuel"
proof (induction fuel arbitrary: p visited)
  case 0
  then show ?case by simp
next
  case (Suc n)
  let ?resolved = "fs_resolve fs p"
  show ?case
  proof (cases "?resolved \<in> visited")
    case True
    then show ?thesis by simp
  next
    case False
    show ?thesis
    proof (cases "fs_read_yaml fs ?resolved")
      case (Inl e)
      then show ?thesis using False by (cases e) simp_all
    next
      case (Inr document)
      then have "?resolved \<in> readable fs - visited"
        using False by (auto simp: readable_def)
      then have "card (readable fs - insert ?resolved visited) < card (readable fs - visited)"
        using assms by (metis Diff_insert card_Diff1_less finite_Diff)
      then have small: "card (readable fs - insert ?resolved visited) < n"
        using Suc.prems by simp
      have fuel: "\<forall>t v'. insert ?resolved visited \<subseteq> v' \<longrightarrow>
                    load_profile_tree n fs t v' \<noteq> Inl OutOfFuel"
      proof (intro allI impI)
        fix t v' assume "insert ?resolved visited \<subseteq> v'"
        then have "readable fs - v' \<subseteq> readable fs - insert ?resolved visited" by blast
        then have "card (readable fs - v') \<le> card (readable fs - insert ?resolved visited)"
          using assms by (simp add: card_mono)
        then show "load_profile_tree n fs t v' \<noteq> Inl OutOfFuel"
          using Suc.IH small by simp
      qed
      have mono: "\<forall>t v x V. load_profile_tree n fs t v = Inr (x, V) \<longrightarrow> v \<subseteq> V"
        using load_profile_tree_visited by blast
      have loop: "load_includes (load_profile_tree n fs) fs ?resolved refs []
                    (insert ?resolved visited) \<noteq> Inl OutOfFuel" for refs
        using load_includes_fuel [OF fuel mono] by blast
      show ?thesis
        using False Inr loop merge_configs_fuel
        by (auto simp: Let_def split: sum.splits prod.splits yval.splits if_splits
            elim: iterate.elims)
    qed
  qed
qed


lemma load_targets_more_fuel:
  assumes ext: "\<forall>t v'. load t v' \<noteq> Inl OutOfFuel \<longrightarrow> load' t v' = load t v'"
      and "load_targets load fs targets combined visited \<noteq> Inl OutOfFuel"
  shows "load_targets load' fs targets combined visited
           = load_targets load fs targets combined visited"
  using assms(2)
proof (induction targets arbitrary: combined visited)
  case Nil
  then show ?case by simp
next
  case (Cons t targets)
  show ?case
  proof (cases "fs_exists fs t")
    case False
    then show ?thesis by simp
  next
    case True
    have "load t visited \<noteq> Inl OutOfFuel"
      using Cons.prems True by (auto split: sum.splits)
    then have same: "load' t visited = load t visited" using ext by blast
    show ?thesis
    proof (cases "load t visited")
      case (Inl e)
      then show ?thesis using same True by simp
    next
      case (Inr r)
      obtain tree visited' where r: "r = (tree, visited')" by (cases r)
      show ?thesis
      proof (cases "merge_configs combined tree")
        case (Inl e)
        then show ?thesis using same True Inr r by simp
      next
        case merged: (Inr combined')
        have "load_targets load fs targets combined' visited' \<noteq> Inl OutOfFuel"
          using Cons.prems True Inr r merged by simp
        then show ?thesis using Cons.IH same True Inr r merged by simp
      qed
    qed
  qed
qed

lemma load_includes_more_fuel:
  assumes ext: "\<forall>t v'. load t v' \<noteq> Inl OutOfFuel \<longrightarrow> load' t v' = load t v'"
      and "load_includes load fs resolved refs combined visited \<noteq> Inl OutOfFuel"
  shows "load_includes load' fs resolved refs combined visited
           = load_includes load fs resolved refs combined visited"
  using assms(2)
proof (induction refs arbitrary: combined visited)
  case Nil
  then show ?case by simp
next
  case (Cons i refs)
  show ?case
  proof (cases "\<exists>s. i = YStr s \<and> strip s \<noteq> []")
    case False
    then have "\<And>l. load_includes l fs resolved (i # refs) combined visited
               = load_includes l fs resolved refs combined visited"
      by (cases i) auto
    then show ?thesis using Cons by simp
  next
    case True
    then obtain s where s: "i = YStr s" "strip s \<noteq> []" by blast
    show ?thesis
    proof (cases "resolve_include_targets fs s resolved")
      case (Inl e)
      then show ?thesis using s by simp
    next
      case targets: (Inr targets)
      have "load_targets load fs targets combined visited \<noteq> Inl OutOfFuel"
        using Cons.prems s targets by (auto split: sum.splits)
      then have same: "load_targets load' fs targets combined visited
                         = load_targets load fs targets combined visited"
        using load_targets_more_fuel [OF ext] by blast
      show ?thesis
      proof (cases "load_targets load fs targets combined visited")
        case (Inl e)
        then show ?thesis using same s targets by simp
      next
        case (Inr r)
        obtain combined' visited' where r: "r = (combined', visited')" by (cases r)
        have "load_includes load fs resolved refs combined' visited' \<noteq> Inl OutOfFuel"
          using Cons.prems s targets Inr r by simp
        then show ?thesis using Cons.IH same s targets Inr r by simp
      qed
    qed
  qed
qed

lemma load_profile_tree_Suc_fuel:
  "load_profile_tree n fs p v \<noteq> Inl OutOfFuel \<Longrightarrow>
     load_profile_tree (Suc n) fs p v = load_profile_tree n fs p v"
proof (induction n arbitrary: p v)
  case 0
  then show ?case by simp
next
  case (Suc n)
  let ?resolved = "fs_resolve fs p"
  have ext: "\<forall>t v'. load_profile_tree n fs t v' \<noteq> Inl OutOfFuel \<longrightarrow>
               load_profile_tree (Suc n) fs t v' = load_profile_tree n fs t v'"
    using Suc.IH by blast
  show ?case
  proof (cases "?resolved \<in> v")
    case True
    then show ?thesis by simp
  next
    case False
    show ?thesis
    proof (cases "\<exists>data refs. fs_read_yaml fs ?resolved = Inr data
              \<and> (if truthy data then data else YMap []) = YMap refs
              \<and> (\<exists>incs. iterate (includes_of refs) = Inr incs)")
      case nonloop: False
      have "load_profile_tree (Suc m) fs p v = load_profile_tree (Suc n) fs p v" for m
        using False nonloop
        by (auto simp: Let_def split: sum.splits yval.splits if_splits)
      then show ?thesis by blast
    next
      case True
      then obtain document data incs where
        d: "fs_read_yaml fs ?resolved = Inr document"
           "(if truthy document then document else YMap []) = YMap data"
           "iterate (includes_of data) = Inr incs"
        by blast
      have "load_includes (load_profile_tree n fs) fs ?resolved incs []
              (insert ?resolved v) \<noteq> Inl OutOfFuel"
        using Suc.prems False d by (auto simp: Let_def split: sum.splits)
      then have "load_includes (load_profile_tree (Suc n) fs) fs ?resolved incs []
                   (insert ?resolved v)
                 = load_includes (load_profile_tree n fs) fs ?resolved incs []
                     (insert ?resolved v)"
        using load_includes_more_fuel [OF ext] by blast
      then show ?thesis
        using False d by (simp add: Let_def del: truthy.simps)
    qed
  qed
qed

lemma load_profile_tree_more_fuel:
  "load_profile_tree n fs p v \<noteq> Inl OutOfFuel \<Longrightarrow>
     load_profile_tree (n + m) fs p v = load_profile_tree n fs p v"
proof (induction m)
  case 0
  then show ?case by simp
next
  case (Suc m)
  then have "load_profile_tree (n + m) fs p v \<noteq> Inl OutOfFuel" by simp
  then show ?case using load_profile_tree_Suc_fuel [of "n + m" fs p v] Suc by simp
qed


lemma readable_flat_fs: "readable (flat_fs files) \<subseteq> fst ` set files"
proof
  fix p assume "p \<in> readable (flat_fs files)"
  then obtain d where "map_of files p = Some (Inr d)"
    by (auto simp: readable_def flat_fs_def split: option.splits)
  then show "p \<in> fst ` set files"
    by (metis map_of_SomeD fst_conv image_eqI)
qed

section \<open>The loader returns\<close>

text \<open>
  Claim C4. In the model the recursion of \<open>load_profile_tree\<close> has a budget of nested
  calls, and \<open>OutOfFuel\<close> is the outcome of a budget that was too small. On a file system
  with finitely many readable files, whatever their includes are (cycles and diamonds
  included), a budget above the number of readable files not yet visited is never used
  up, and a larger budget gives the same result: the recursion is no deeper than the
  number of files it can still visit, because every call that goes on to its includes
  has put a new readable path into the visited set. (The walk of a directory,
  \<open>collect_yaml_files\<close>, recurses on the directory's finite tree.) And a call on a path
  whose resolved form is already in the visited set returns the empty configuration and
  the set unchanged, whatever the file system holds at that path: the file is not read,
  the visit contributes nothing and raises nothing.
\<close>

theorem load_profile_tree_terminates:
  assumes "finite (readable fs)"
  shows "(\<forall>p visited fuel. card (readable fs - visited) < fuel \<longrightarrow>
            load_profile_tree fuel fs p visited \<noteq> Inl OutOfFuel
            \<and> (\<forall>more. load_profile_tree (fuel + more) fs p visited
                        = load_profile_tree fuel fs p visited))
       \<and> (\<forall>p visited n. fs_resolve fs p \<in> visited \<longrightarrow>
            load_profile_tree (Suc n) fs p visited = Inr ([], visited))"
  using load_profile_tree_fuel [OF assms] load_profile_tree_more_fuel [of _ fs]
  by simp

theorem load_profile_tree_terminates_witness:
  "load_profile_tree 3 (flat_fs example_cycle) ''a.yaml'' {}
     = Inr ([(''directives'', YMap [(''--b'', YInt 2), (''--a'', YInt 1)])],
            {''b.yaml'', ''a.yaml''})
   \<and> load_profile_tree 3 (flat_fs example_cycle) ''a.yaml'' {} \<noteq> Inl OutOfFuel
   \<and> load_profile_tree (3 + 7) (flat_fs example_cycle) ''a.yaml'' {}
       = load_profile_tree 3 (flat_fs example_cycle) ''a.yaml'' {}
   \<and> load_profile_tree (Suc 0) (flat_fs example_cycle) ''a.yaml'' {''a.yaml''}
       = Inr ([], {''a.yaml''})"
proof -
  let ?fs = "flat_fs example_cycle"
  have sub: "readable ?fs \<subseteq> {''a.yaml'', ''b.yaml''}"
    using readable_flat_fs [of example_cycle] by (simp add: example_cycle_def)
  then have fin: "finite (readable ?fs)"
    by (rule finite_subset) simp
  have "card (readable ?fs) \<le> card {''a.yaml'', ''b.yaml''}"
    using sub by (intro card_mono) simp_all
  then have c: "card (readable ?fs - {}) < 3" by simp
  have r: "fs_resolve ?fs ''a.yaml'' \<in> {''a.yaml''}"
    by (simp add: flat_fs_def)
  have l: "load_profile_tree 3 ?fs ''a.yaml'' {}
     = Inr ([(''directives'', YMap [(''--b'', YInt 2), (''--a'', YInt 1)])],
            {''b.yaml'', ''a.yaml''})"
    by code_simp
  note t = load_profile_tree_terminates [OF fin]
  have 1: "load_profile_tree 3 ?fs ''a.yaml'' {} \<noteq> Inl OutOfFuel"
    using t c by blast
  have 2: "load_profile_tree (3 + 7) ?fs ''a.yaml'' {} = load_profile_tree 3 ?fs ''a.yaml'' {}"
    using t c by blast
  have 3: "load_profile_tree (Suc 0) ?fs ''a.yaml'' {''a.yaml''} = Inr ([], {''a.yaml''})"
    using t r by blast
  show ?thesis using l 1 2 3 by blast
qed

section \<open>Merging with the empty tree\<close>

lemma dict_set_new: "k \<notin> fst ` set d \<Longrightarrow> dict_set d k v = d @ [(k, v)]"
  by (induction d) auto

lemma merge_directives_plain:
  assumes "list_all plain_directive ds" and "distinct (map fst (acc @ ds))"
  shows "merge_directives (YMap acc) ds = Inr (YMap (acc @ ds))"
  using assms
proof (induction ds arbitrary: acc)
  case Nil
  then show ?case by simp
next
  case (Cons e ds)
  obtain f d where e: "e = (f, d)" by (cases e)
  have p: "d \<noteq> YNull" "expand_flag_keys f d = [f]"
    "case d of YMap body \<Rightarrow> clean_directive_config body = body | _ \<Rightarrow> True"
    using Cons.prems(1) e by (simp_all add: plain_directive_def)
  have new: "f \<notin> fst ` set acc" using Cons.prems(2) e by auto
  have "merge_directive (YMap acc) e = Inr (YMap (acc @ [e]))"
    using p e dict_set_new [OF new]
    by (cases d) (simp_all add: merge_directive_def Let_def directives_setitem_def)
  moreover have "merge_directives (YMap (acc @ [e])) ds = Inr (YMap ((acc @ [e]) @ ds))"
    using Cons.IH [of "acc @ [e]"] Cons.prems by simp
  ultimately show ?case by simp
qed


lemma filter_key_distinct:
  "distinct (map fst m) \<Longrightarrow> dict_get m k = Some v \<Longrightarrow> filter (\<lambda>kv. fst kv = k) m = [(k, v)]"
proof (induction m)
  case Nil
  then show ?case by (simp add: dict_get_def)
next
  case (Cons a m)
  show ?case
  proof (cases "fst a = k")
    case True
    then have "a = (k, v)" using Cons.prems(2) by (cases a) (simp add: dict_get_def)
    moreover have "k \<notin> fst ` set m" using Cons.prems(1) True by auto
    then have "\<forall>kv \<in> set m. fst kv \<noteq> k" by (metis image_eqI)
    then have "filter (\<lambda>kv. fst kv = k) m = []"
      by (simp add: filter_empty_conv)
    ultimately show ?thesis by simp
  next
    case False
    then show ?thesis using Cons by (cases a) (auto simp: dict_get_def)
  qed
qed

lemma filter_key_none:
  "dict_get m k = None \<Longrightarrow> filter (\<lambda>kv. fst kv = k) m = []"
  by (auto simp: dict_get_def filter_empty_conv map_of_eq_None_iff)

lemma dict_get_absent: "k \<notin> fst ` set d \<Longrightarrow> dict_get d k = None"
  by (simp add: dict_get_def map_of_eq_None_iff)

lemma merge_plain_both:
  "base = [] \<longrightarrow> plain (YMap overlay) \<longrightarrow> wf_yval (YMap overlay) \<longrightarrow>
     merge_configs base overlay
       = Inr (filter (\<lambda>kv. fst kv = ''directives'') overlay
              @ map (\<lambda>kv. (fst kv, directives_first (snd kv)))
                  (filter (\<lambda>kv. fst kv \<noteq> ''directives'') overlay))"
  "plain (YMap items) \<longrightarrow> wf_yval (YMap items) \<longrightarrow>
     (\<forall>k \<in> fst ` set items. k \<noteq> ''directives'' \<longrightarrow> k \<notin> fst ` set result) \<longrightarrow>
     merge_items result items
       = Inr (result @ map (\<lambda>kv. (fst kv, directives_first (snd kv)))
                         (filter (\<lambda>kv. fst kv \<noteq> ''directives'') items))"
proof (induction base overlay and result items rule: merge_configs_merge_items.induct)
  case (1 base overlay)
  show ?case
  proof (intro impI)
    assume b: "base = []" and pl: "plain (YMap overlay)" and wf: "wf_yval (YMap overlay)"
    let ?rest = "map (\<lambda>kv. (fst kv, directives_first (snd kv)))
                  (filter (\<lambda>kv. fst kv \<noteq> ''directives'') overlay)"
    show "merge_configs base overlay
            = Inr (filter (\<lambda>kv. fst kv = ''directives'') overlay @ ?rest)"
    proof (cases "dict_get overlay ''directives''")
      case None
      have into: "merge_directives_into base overlay = Inr []"
        using None b by (simp add: merge_directives_into_def)
      have "merge_items [] overlay = Inr ([] @ ?rest)"
        using "1.IH" [OF into] pl wf by simp
      then show ?thesis using into filter_key_none [OF None]
        by (simp add: merge_configs.simps)
    next
      case (Some v)
      then have mem: "(''directives'', v) \<in> set overlay"
        by (simp add: dict_get_def map_of_SomeD)
      then obtain ds where ds: "v = YMap ds" "list_all plain_directive ds"
        using pl by (cases v) (auto simp: list_all_iff)
      have "wf_yval v" using wf mem by (auto simp: list_all_iff)
      then have dist: "distinct (map fst ([] @ ds))" using ds(1) by simp
      have "merge_directives (YMap []) ds = Inr (YMap ([] @ ds))"
        using merge_directives_plain [OF ds(2) dist] .
      then have into: "merge_directives_into base overlay = Inr [(''directives'', v)]"
        using Some b ds(1) by (simp add: merge_directives_into_def dict_get_def)
      have "merge_items [(''directives'', v)] overlay = Inr ([(''directives'', v)] @ ?rest)"
        using "1.IH" [OF into] pl wf by simp
      moreover have "filter (\<lambda>kv. fst kv = ''directives'') overlay = [(''directives'', v)]"
        using filter_key_distinct [OF _ Some] wf by simp
      ultimately show ?thesis using into by (simp add: merge_configs.simps)
    qed
  qed
next
  case (2 result)
  then show ?case by simp
next
  case (3 result key v items)
  show ?case
  proof (intro impI)
    assume pl: "plain (YMap ((key, v) # items))" and wf: "wf_yval (YMap ((key, v) # items))"
      and new: "\<forall>k \<in> fst ` set ((key, v) # items). k \<noteq> ''directives'' \<longrightarrow> k \<notin> fst ` set result"
    let ?rest = "\<lambda>items. map (\<lambda>kv. (fst kv, directives_first (snd kv)))
                  (filter (\<lambda>kv. fst kv \<noteq> ''directives'') items)"
    have pl': "plain (YMap items)" using pl by simp
    have wf': "wf_yval (YMap items)" using wf by simp
    have new': "\<forall>k \<in> fst ` set items. k \<noteq> ''directives'' \<longrightarrow> k \<notin> fst ` set result"
      using new by simp
    show "merge_items result ((key, v) # items) = Inr (result @ ?rest ((key, v) # items))"
    proof (cases "key = ''directives''")
      case True
      then show ?thesis using "3.IH"(1) pl' wf' new' by simp
    next
      case False
      note neq = False
      have fresh: "key \<notin> fst ` set result" using new neq by simp
      have notin: "key \<notin> fst ` set items" using wf by auto
      have nn: "v \<noteq> YNull" using pl neq by simp
      have step: "\<forall>k \<in> fst ` set items. k \<noteq> ''directives'' \<longrightarrow>
                    k \<notin> fst ` set (result @ [(key, w)])" for w
        using new' notin by auto
      show ?thesis
      proof (cases v)
        case YNull
        then show ?thesis using nn by simp
      next
        case (YMap m)
        have ex: "(case dict_get result key of Some (YMap existing) \<Rightarrow> existing | _ \<Rightarrow> []) = []"
          using dict_get_absent [OF fresh] by simp
        have plm: "plain (YMap m)" using pl neq YMap by simp
        have wfm: "wf_yval (YMap m)" using wf YMap by simp
        have m: "merge_configs (case dict_get result key of Some (YMap existing) \<Rightarrow> existing | _ \<Rightarrow> []) m
                   = Inr (filter (\<lambda>kv. fst kv = ''directives'') m @ ?rest m)"
          using "3.IH"(7) [OF neq YMap] ex plm wfm by simp
        let ?merged = "filter (\<lambda>kv. fst kv = ''directives'') m @ ?rest m"
        have "merge_items (dict_set result key (YMap ?merged)) items
                = Inr (dict_set result key (YMap ?merged) @ ?rest items)"
          using "3.IH"(8) [OF neq YMap m] pl' wf' step [of "YMap ?merged"]
            dict_set_new [OF fresh] by simp
        then show ?thesis
          using m neq YMap dict_set_new [OF fresh] by simp
      next
        case (YBool b)
        then show ?thesis
          using "3.IH"(3) [OF neq YBool] pl' wf' step [of v] dict_set_new [OF fresh] neq
          by simp
      next
        case (YInt i)
        then show ?thesis
          using "3.IH"(4) [OF neq YInt] pl' wf' step [of v] dict_set_new [OF fresh] neq
          by simp
      next
        case (YStr s)
        then show ?thesis
          using "3.IH"(5) [OF neq YStr] pl' wf' step [of v] dict_set_new [OF fresh] neq
          by simp
      next
        case (YList xs)
        then show ?thesis
          using "3.IH"(6) [OF neq YList] pl' wf' step [of v] dict_set_new [OF fresh] neq
          by simp
      qed
    qed
  qed
qed


lemma map_of_distinct_entry:
  "distinct (map fst m) \<Longrightarrow> kv \<in> set m \<Longrightarrow> map_of m (fst kv) = Some (snd kv)"
  by (cases kv) simp

lemma yeq_refl: "wf_yval v \<Longrightarrow> yeq v v"
proof (induction v)
  case (YList xs)
  then have "\<forall>x \<in> set xs. yeq x x" by (simp add: list_all_iff)
  then show ?case by (simp add: list_all2_same)
next
  case (YMap m)
  have "case map_of m (fst kv) of None \<Rightarrow> False | Some w \<Rightarrow> yeq (snd kv) w"
    if kv: "kv \<in> set m" for kv
  proof -
    have "map_of m (fst kv) = Some (snd kv)"
      using map_of_distinct_entry [OF _ kv] YMap.prems by simp
    moreover have "wf_yval (snd kv)" using YMap.prems kv by (simp add: list_all_iff)
    moreover have "snd kv \<in> Basic_BNFs.snds kv" by (cases kv) simp
    ultimately show ?thesis using YMap.IH [OF kv] by simp
  qed
  then show ?case by (simp add: list_all_iff)
qed simp_all

lemma yeq_directives_first: "wf_yval v \<Longrightarrow> yeq (directives_first v) v"
proof (induction v)
  case (YList xs)
  then show ?case using yeq_refl [of "YList xs"] by simp
next
  case (YMap m)
  let ?m' = "filter (\<lambda>kv. fst kv = ''directives'') m
             @ map (\<lambda>kv. (fst kv, directives_first (snd kv)))
                 (filter (\<lambda>kv. fst kv \<noteq> ''directives'') m)"
  have dist: "distinct (map fst m)" using YMap.prems by simp
  have "fst ` set (filter (\<lambda>kv. fst kv = ''directives'') m)
          \<union> fst ` set (filter (\<lambda>kv. fst kv \<noteq> ''directives'') m) = fst ` set m"
    by force
  then have keys: "set (map fst ?m') = set (map fst m)"
    by (simp add: image_Un image_image)
  have "case map_of m (fst kv') of None \<Rightarrow> False | Some w \<Rightarrow> yeq (snd kv') w"
    if kv': "kv' \<in> set ?m'" for kv'
  proof -
    from kv' consider "kv' \<in> set m"
      | kv where "kv \<in> set m" "kv' = (fst kv, directives_first (snd kv))"
      by auto
    then show ?thesis
    proof cases
      case 1
      have "map_of m (fst kv') = Some (snd kv')"
        using map_of_distinct_entry [OF dist 1] .
      moreover have "wf_yval (snd kv')" using YMap.prems 1 by (simp add: list_all_iff)
      ultimately show ?thesis using yeq_refl by simp
    next
      case 2
      have "map_of m (fst kv) = Some (snd kv)"
        using map_of_distinct_entry [OF dist 2(1)] .
      moreover have "wf_yval (snd kv)" using YMap.prems 2(1) by (simp add: list_all_iff)
      moreover have "snd kv \<in> Basic_BNFs.snds kv" by (cases kv) simp
      ultimately show ?thesis using YMap.IH [OF 2(1)] 2(2) by simp
    qed
  qed
  then have "list_all (\<lambda>kv. case map_of m (fst kv) of None \<Rightarrow> False
                              | Some w \<Rightarrow> yeq (snd kv) w) ?m'"
    by (simp only: list_all_iff) blast
  then show ?case using keys by simp
qed simp_all

text \<open>
  Claim C9, amended. \<open>merge_configs A {}\<close> is \<open>A\<close>, for every tree. \<open>merge_configs {} A\<close>
  is equal to \<open>A\<close> (as Python compares values) when \<open>A\<close> is plain. It is not equal to
  \<open>A\<close> for every \<open>A\<close>: the examples after the theorem show a key bound to null, a
  compound \<open>directives\<close> key and a directive with alias metadata that do not come back.
\<close>

theorem merge_with_empty:
  "merge_configs A [] = Inr A
   \<and> (wf_yval (YMap A) \<and> plain (YMap A) \<longrightarrow>
        (\<exists>result. merge_configs [] A = Inr result \<and> yeq (YMap result) (YMap A)))"
proof (intro conjI impI)
  show "merge_configs A [] = Inr A" by (rule merge_configs_empty_overlay)
next
  assume a: "wf_yval (YMap A) \<and> plain (YMap A)"
  then have "merge_configs [] A
               = Inr (filter (\<lambda>kv. fst kv = ''directives'') A
                      @ map (\<lambda>kv. (fst kv, directives_first (snd kv)))
                          (filter (\<lambda>kv. fst kv \<noteq> ''directives'') A))"
    using merge_plain_both(1) [of "[]" A] by simp
  moreover have "yeq (directives_first (YMap A)) (YMap A)"
    using yeq_directives_first a by blast
  ultimately show "\<exists>result. merge_configs [] A = Inr result \<and> yeq (YMap result) (YMap A)"
    by (simp del: yeq.simps)
qed

theorem merge_with_empty_witness:
  "merge_configs example_tree [] = Inr example_tree
   \<and> (\<exists>result. merge_configs [] example_tree = Inr result
         \<and> yeq (YMap result) (YMap example_tree))"
proof -
  have "wf_yval (YMap example_tree) \<and> plain (YMap example_tree)"
    by code_simp
  then show ?thesis using merge_with_empty [of example_tree] by blast
qed

text \<open>
  The claim as it is stated fails for the second merge: the tree \<open>{timeout: null}\<close> comes
  back empty, the key \<open>--x, --y\<close> comes back as the two keys \<open>--x\<close> and \<open>--y\<close>, and the
  directive \<open>--x: {aliases: [--z], mode: 1}\<close> comes back without its \<open>aliases\<close> field, under
  \<open>--x\<close> and under \<open>--z\<close>.
\<close>

theorem merge_with_empty_counterexample:
  "merge_configs [] [(''timeout'', YNull)] = Inr []
   \<and> \<not> yeq (YMap []) (YMap [(''timeout'', YNull)])
   \<and> merge_configs [] [(''directives'', YMap [(''--x, --y'', YInt 1)])]
       = Inr [(''directives'', YMap [(''--x'', YInt 1), (''--y'', YInt 1)])]
   \<and> \<not> yeq (YMap [(''directives'', YMap [(''--x'', YInt 1), (''--y'', YInt 1)])])
            (YMap [(''directives'', YMap [(''--x, --y'', YInt 1)])])
   \<and> merge_configs []
         [(''directives'',
           YMap [(''--x'', YMap [(''aliases'', YList [YStr ''--z'']), (''mode'', YInt 1)])])]
       = Inr [(''directives'',
               YMap [(''--x'', YMap [(''mode'', YInt 1)]), (''--z'', YMap [(''mode'', YInt 1)])])]
   \<and> \<not> yeq (YMap [(''directives'',
                     YMap [(''--x'', YMap [(''mode'', YInt 1)]),
                           (''--z'', YMap [(''mode'', YInt 1)])])])
            (YMap [(''directives'',
                     YMap [(''--x'', YMap [(''aliases'', YList [YStr ''--z'']),
                                           (''mode'', YInt 1)])])])"
  by code_simp

section \<open>Alias fan-out\<close>

lemma findall_flags_sep_run:
  "list_all is_sep s \<Longrightarrow> findall_flags (s @ r) = findall_flags r"
proof (induction s)
  case Nil
  then show ?case by simp
next
  case (Cons c s)
  then have "is_sep c" by simp
  then have "c \<noteq> CHR ''-''" by (auto simp: is_sep_def is_space_def)
  then show ?case using Cons by simp
qed

lemma flag_token_shape:
  assumes "is_flag_token t"
  obtains w where "t = CHR ''-'' # CHR ''-'' # w" "w \<noteq> []" "\<forall>c \<in> set w. \<not> is_sep c"
proof -
  from assms obtain a b w where t: "t = a # b # w"
    by (cases t; cases "tl t") (auto simp: is_flag_token_def)
  then have "a = CHR ''-''" "b = CHR ''-''" "w \<noteq> []" "\<forall>c \<in> set w. \<not> is_sep c"
    using assms by (auto simp: is_flag_token_def list_all_iff)
  then show ?thesis using that t by blast
qed

lemma findall_flags_flag_token:
  assumes "is_flag_token t" and "r = [] \<or> is_sep (hd r)"
  shows "findall_flags (t @ r) = t # findall_flags r"
proof -
  obtain w where w: "t = CHR ''-'' # CHR ''-'' # w" "w \<noteq> []" "\<forall>c \<in> set w. \<not> is_sep c"
    using assms(1) by (rule flag_token_shape)
  have r: "takeWhile (\<lambda>x. \<not> is_sep x) r = []" "dropWhile (\<lambda>x. \<not> is_sep x) r = r"
    using assms(2) by (cases r; simp)+
  have tw: "takeWhile (\<lambda>x. \<not> is_sep x) (w @ r) = w"
    using w(3) r(1) by (simp add: takeWhile_append2)
  have dw: "dropWhile (\<lambda>x. \<not> is_sep x) (w @ r) = r"
    using w(3) r(2) by (simp add: dropWhile_append2)
  show ?thesis using w(1,2) tw dw by simp
qed

lemma findall_flags_compound:
  "separated parts \<Longrightarrow> findall_flags (compound_key parts) = map fst parts"
proof (induction parts rule: separated.induct)
  case 1
  then show ?case by simp
next
  case (2 part)
  then have "findall_flags (fst part @ snd part) = fst part # findall_flags (snd part)"
    using findall_flags_flag_token [of "fst part" "snd part"]
    by (cases "snd part") auto
  moreover have "findall_flags (snd part) = []"
    using 2 findall_flags_sep_run [of "snd part" "[]"] by simp
  ultimately show ?case by simp
next
  case (3 part v va)
  let ?r = "compound_key (v # va)"
  have s: "snd part \<noteq> []" "list_all is_sep (snd part)" "is_flag_token (fst part)"
    "separated (v # va)"
    using "3.prems" by simp_all
  have "is_sep (hd (snd part @ ?r))" using s(1,2) by (cases "snd part") auto
  then have "findall_flags (fst part @ snd part @ ?r) = fst part # findall_flags (snd part @ ?r)"
    using findall_flags_flag_token [OF s(3), of "snd part @ ?r"] by simp
  moreover have "findall_flags (snd part @ ?r) = findall_flags ?r"
    using findall_flags_sep_run [OF s(2)] .
  ultimately show ?case using "3.IH" [OF s(4)] by simp
qed

lemma flag_token_strip:
  assumes "is_flag_token t"
  shows "strip t = t \<and> t \<noteq> []"
proof -
  obtain w where w: "t = CHR ''-'' # CHR ''-'' # w" "w \<noteq> []" "\<forall>c \<in> set w. \<not> is_sep c"
    using assms by (rule flag_token_shape)
  have "\<not> is_space (CHR ''-'')" by (simp add: is_space_def)
  moreover have "last t = last w" using w(1,2) by simp
  moreover have "last w \<in> set w" using w(2) by simp
  then have "\<not> is_space (last w)" using w(3) is_space_is_sep by blast
  ultimately show ?thesis using strip_id [of t] w(1) by simp
qed

lemma separated_tokens: "separated parts \<Longrightarrow> part \<in> set parts \<Longrightarrow> is_flag_token (fst part)"
  by (induction parts rule: separated.induct) auto

lemma raw_key_tokens_compound:
  assumes "list_all is_sep lead" and "separated parts" and "parts \<noteq> []"
  shows "raw_key_tokens (lead @ compound_key parts) = map fst parts"
proof -
  have f: "findall_flags (lead @ compound_key parts) = map fst parts"
    using findall_flags_sep_run [OF assms(1)] findall_flags_compound [OF assms(2)] by simp
  have "\<forall>t \<in> set (map fst parts). strip t = t \<and> t \<noteq> []"
    using separated_tokens [OF assms(2)] flag_token_strip by auto
  then have "nonempty_stripped ts = ts" if "ts = map fst parts" for ts
    unfolding that nonempty_stripped_def
    by (metis (mono_tags, lifting) filter_True map_idI)
  then have "nonempty_stripped (map fst parts) = map fst parts" by simp
  then show ?thesis using f assms(3) by (simp add: raw_key_tokens_def Let_def)
qed

lemma split_sep_append:
  assumes "CHR '','' \<notin> set p" and "CHR ''|'' \<notin> set p"
  shows "split_sep (p @ r) = (p @ hd (split_sep r)) # tl (split_sep r)"
  using assms
proof (induction p)
  case Nil
  then show ?case using split_sep_nonempty [of r] by simp
next
  case (Cons c p)
  then show ?case by (auto split: list.splits)
qed

lemma split_sep_joined:
  assumes "\<forall>p \<in> set (piece # map snd rest). CHR '','' \<notin> set p \<and> CHR ''|'' \<notin> set p"
      and "\<forall>c \<in> fst ` set rest. c = CHR '','' \<or> c = CHR ''|''"
  shows "split_sep (joined piece rest) = piece # map snd rest"
  using assms
proof (induction piece rest rule: joined.induct)
  case (1 piece)
  then show ?case using split_sep_append [of piece "[]"] by simp
next
  case (2 piece next_piece rest)
  have "split_sep (joined (snd next_piece) rest) = snd next_piece # map snd rest"
    using 2 by simp
  moreover have "fst next_piece = CHR '','' \<or> fst next_piece = CHR ''|''"
    using "2.prems"(2) by simp
  ultimately have "split_sep (fst next_piece # joined (snd next_piece) rest)
                     = [] # snd next_piece # map snd rest"
    by auto
  then show ?case
    using split_sep_append [of piece "fst next_piece # joined (snd next_piece) rest"] "2.prems"(1)
    by simp
qed

lemma raw_key_tokens_joined:
  assumes "\<forall>p \<in> set (piece # map snd rest). CHR '','' \<notin> set p \<and> CHR ''|'' \<notin> set p"
      and "\<forall>c \<in> fst ` set rest. c = CHR '','' \<or> c = CHR ''|''"
      and "\<not> (\<exists>a c b. joined piece rest = a @ CHR ''-'' # CHR ''-'' # c # b \<and> \<not> is_sep c)"
  shows "raw_key_tokens (joined piece rest)
           = filter (\<lambda>t. t \<noteq> []) (map strip (piece # map snd rest))"
proof -
  have "findall_flags (joined piece rest) = []"
    using assms(3) findall_flags_nonempty_iff [of "joined piece rest"] by blast
  then show ?thesis
    using split_sep_joined [OF assms(1,2)]
    by (simp add: raw_key_tokens_def nonempty_stripped_def)
qed

lemma alias_strings_set: "set (alias_strings xs) = {s. YStr s \<in> set xs}"
  by (induction xs rule: alias_strings.induct) auto

lemma alias_keys_set:
  "set (alias_keys body field)
     = {strip s | s aliases. dict_get body field = Some (YList aliases)
                    \<and> YStr s \<in> set aliases \<and> strip s \<noteq> []}"
proof (cases "dict_get body field")
  case None
  then show ?thesis by (simp add: alias_keys_def)
next
  case (Some v)
  then show ?thesis
    by (cases v) (auto simp: alias_keys_def nonempty_stripped_def alias_strings_set)
qed

lemma dict_get_clean:
  "dict_get (clean_directive_config body) field
     = (if field = ''aliases'' \<or> field = ''variations'' then None else dict_get body field)"
  by (induction body) (auto simp: clean_directive_config_def dict_get_def)

text \<open>
  Claim C3, amended. Let the overlay's \<open>directives\<close> bind a raw key \<open>flag\<close> to a mapping
  \<open>body\<close>. The keys of the entry are those \<open>expand_flag_keys\<close> returns: the keys of the raw
  key together with every string of the \<open>aliases\<close> and \<open>variations\<close> lists of \<open>body\<close>,
  trimmed, the blank ones left out. For a compound raw key (flag tokens, each followed by a
  run of commas, pipes and whitespace) the keys of the raw key are its tokens; for a
  raw key without any token they are its pieces between commas and pipes, trimmed, the
  empty ones left out. Under every key \<open>k\<close> of the entry, \<open>merge_configs\<close> assigns the body
  without its \<open>aliases\<close> and \<open>variations\<close> fields (every other field is as in the body):
  that is what the \<open>directives\<close> object holds under \<open>k\<close> once the loop has processed the
  entry, whatever came before it, and it is what the merged tree holds under \<open>k\<close> when no
  later entry of the same overlay touches \<open>k\<close>. The merge raises nothing when every
  \<open>directives\<close> of the base is a mapping.
\<close>

theorem alias_fan_out:
  assumes overlay: "dict_get overlay ''directives'' = Some (YMap (pre @ (flag, YMap body) # post))"
      and base: "base_directives base = YMap bd"
  shows "(\<forall>k \<in> set (expand_flag_keys flag (YMap body)).
            (\<exists>mid. merge_directives (YMap bd) (pre @ [(flag, YMap body)]) = Inr (YMap mid)
                \<and> dict_get mid k = Some (YMap (clean_directive_config body)))
          \<and> ((\<forall>e \<in> set post. k \<notin> entry_keys e) \<longrightarrow>
               (\<forall>result. merge_configs base overlay = Inr result \<longrightarrow>
                  (\<exists>ds. dict_get result ''directives'' = Some (YMap ds)
                      \<and> dict_get ds k = Some (YMap (clean_directive_config body))))))
       \<and> (directives_ok (YMap base) \<longrightarrow> (\<exists>result. merge_configs base overlay = Inr result))
       \<and> set (expand_flag_keys flag (YMap body))
           = set (raw_key_tokens flag)
             \<union> {strip s | s field aliases.
                   (field = ''aliases'' \<or> field = ''variations'')
                   \<and> dict_get body field = Some (YList aliases)
                   \<and> YStr s \<in> set aliases \<and> strip s \<noteq> []}
       \<and> (\<forall>lead parts.
             flag = lead @ compound_key parts \<and> list_all is_sep lead \<and> separated parts
             \<and> parts \<noteq> [] \<longrightarrow>
             set (raw_key_tokens flag) = fst ` set parts)
       \<and> (\<forall>piece rest.
             flag = joined piece rest
             \<and> (\<forall>p \<in> set (piece # map snd rest). CHR '','' \<notin> set p \<and> CHR ''|'' \<notin> set p)
             \<and> (\<forall>c \<in> fst ` set rest. c = CHR '','' \<or> c = CHR ''|'')
             \<and> \<not> (\<exists>a c b. flag = a @ CHR ''-'' # CHR ''-'' # c # b \<and> \<not> is_sep c) \<longrightarrow>
             set (raw_key_tokens flag)
               = {strip p | p. p \<in> set (piece # map snd rest) \<and> strip p \<noteq> []})
       \<and> (\<forall>field. dict_get (clean_directive_config body) field
             = (if field = ''aliases'' \<or> field = ''variations'' then None
                else dict_get body field))"
proof (intro conjI ballI allI impI)
  fix k
  assume "k \<in> set (expand_flag_keys flag (YMap body))"
  then have k: "k \<in> entry_keys (flag, YMap body)" by (simp add: entry_keys_def)
  have b: "entry_binding (flag, YMap body) = Some (YMap (clean_directive_config body))"
    by (simp add: entry_binding_def)
  obtain mid where mid: "merge_directives (YMap bd) (pre @ [(flag, YMap body)]) = Inr (YMap mid)"
    using merge_directives_total by blast
  have "dict_get mid k = Some (YMap (clean_directive_config body))"
    using merge_directives_last [of bd pre "(flag, YMap body)" "[]" mid k] mid k b
    by simp
  then show "\<exists>mid. merge_directives (YMap bd) (pre @ [(flag, YMap body)]) = Inr (YMap mid)
                \<and> dict_get mid k = Some (YMap (clean_directive_config body))"
    using mid by blast
next
  fix k result
  assume "k \<in> set (expand_flag_keys flag (YMap body))"
    and frame: "\<forall>e \<in> set post. k \<notin> entry_keys e"
    and merged: "merge_configs base overlay = Inr result"
  then have k: "k \<in> entry_keys (flag, YMap body)" by (simp add: entry_keys_def)
  have b: "entry_binding (flag, YMap body) = Some (YMap (clean_directive_config body))"
    by (simp add: entry_binding_def)
  have start: "(case dict_get base ''directives'' of None \<Rightarrow> YMap [] | Some v \<Rightarrow> v) = YMap bd"
    using base by (simp add: base_directives_def)
  obtain v where v: "merge_directives (YMap bd) (pre @ (flag, YMap body) # post) = Inr v"
    "dict_get result ''directives'' = Some v"
    using merge_configs_directives [OF overlay merged] start by auto
  obtain ds where ds: "v = YMap ds"
    using merge_directives_mapping [OF v(1)] by blast
  have "dict_get ds k = entry_binding (flag, YMap body)"
    using merge_directives_last [of bd pre "(flag, YMap body)" post ds k] v(1) ds k frame
    by simp
  then show "\<exists>ds. dict_get result ''directives'' = Some (YMap ds)
                      \<and> dict_get ds k = Some (YMap (clean_directive_config body))"
    using v(2) ds b by simp
next
  assume "directives_ok (YMap base)"
  then show "\<exists>result. merge_configs base overlay = Inr result"
    using merge_ok_both(1) [of base overlay] by blast
next
  have "set (alias_keys body ''aliases'') \<union> set (alias_keys body ''variations'')
          = {strip s | s field aliases.
                   (field = ''aliases'' \<or> field = ''variations'')
                   \<and> dict_get body field = Some (YList aliases)
                   \<and> YStr s \<in> set aliases \<and> strip s \<noteq> []}"
    unfolding alias_keys_set by blast
  then show "set (expand_flag_keys flag (YMap body))
           = set (raw_key_tokens flag)
             \<union> {strip s | s field aliases.
                   (field = ''aliases'' \<or> field = ''variations'')
                   \<and> dict_get body field = Some (YList aliases)
                   \<and> YStr s \<in> set aliases \<and> strip s \<noteq> []}"
    unfolding expand_flag_keys_set by blast
next
  fix lead parts
  assume "flag = lead @ compound_key parts \<and> list_all is_sep lead \<and> separated parts
             \<and> parts \<noteq> []"
  then have "raw_key_tokens flag = map fst parts"
    using raw_key_tokens_compound by blast
  then show "set (raw_key_tokens flag) = fst ` set parts" by simp
next
  fix piece rest
  assume "flag = joined piece rest
             \<and> (\<forall>p \<in> set (piece # map snd rest). CHR '','' \<notin> set p \<and> CHR ''|'' \<notin> set p)
             \<and> (\<forall>c \<in> fst ` set rest. c = CHR '','' \<or> c = CHR ''|'')
             \<and> \<not> (\<exists>a c b. flag = a @ CHR ''-'' # CHR ''-'' # c # b \<and> \<not> is_sep c)"
  then have "raw_key_tokens flag = filter (\<lambda>t. t \<noteq> []) (map strip (piece # map snd rest))"
    using raw_key_tokens_joined [of piece rest] by blast
  then show "set (raw_key_tokens flag)
               = {strip p | p. p \<in> set (piece # map snd rest) \<and> strip p \<noteq> []}"
    by auto
next
  fix field
  show "dict_get (clean_directive_config body) field
             = (if field = ''aliases'' \<or> field = ''variations'' then None
                else dict_get body field)"
    by (rule dict_get_clean)
qed

text \<open>
  The example of the specification, with one more field in the body; and a raw key without
  a flag token, between two other entries.
\<close>

theorem alias_fan_out_witness:
  "set (raw_key_tokens ''--x, --y'') = {''--x'', ''--y''}
   \<and> set (raw_key_tokens ''fast, slow'') = {''fast'', ''slow''}
   \<and> merge_configs []
       [(''directives'',
         YMap [(''--x, --y'', YMap [(''aliases'', YList [YStr ''--z'']), (''mode'', YInt 1)])])]
     = Inr [(''directives'',
             YMap [(''--x'', YMap [(''mode'', YInt 1)]), (''--y'', YMap [(''mode'', YInt 1)]),
                   (''--z'', YMap [(''mode'', YInt 1)])])]
   \<and> (\<exists>ds. dict_get
              [(''directives'',
                YMap [(''--x'', YMap [(''mode'', YInt 1)]), (''--y'', YMap [(''mode'', YInt 1)]),
                      (''--z'', YMap [(''mode'', YInt 1)])])] ''directives'' = Some (YMap ds)
         \<and> dict_get ds ''--z'' = Some (YMap [(''mode'', YInt 1)]))
   \<and> (\<exists>ds. dict_get
              [(''directives'',
                YMap [(''--x'', YMap [(''mode'', YInt 1)]), (''--y'', YMap [(''mode'', YInt 1)]),
                      (''--z'', YMap [(''mode'', YInt 1)])])] ''directives'' = Some (YMap ds)
         \<and> dict_get ds ''--y'' = Some (YMap [(''mode'', YInt 1)]))
   \<and> (\<exists>mid. merge_directives (YMap [(''slow'', YInt 0)])
                ([(''--q'', YInt 3)]
                 @ [(''fast, slow'', YMap [(''variations'', YList [YStr '' quick '']),
                                           (''mode'', YInt 2)])])
              = Inr (YMap mid)
           \<and> dict_get mid ''slow'' = Some (YMap [(''mode'', YInt 2)]))
   \<and> (\<exists>mid. merge_directives (YMap [(''slow'', YInt 0)])
                ([(''--q'', YInt 3)]
                 @ [(''fast, slow'', YMap [(''variations'', YList [YStr '' quick '']),
                                           (''mode'', YInt 2)])])
              = Inr (YMap mid)
           \<and> dict_get mid ''quick'' = Some (YMap [(''mode'', YInt 2)]))"
proof -
  let ?body = "[(''aliases'', YList [YStr ''--z'']), (''mode'', YInt 1)]"
  let ?overlay = "[(''directives'', YMap ([] @ (''--x, --y'', YMap ?body) # []))]"
  let ?body2 = "[(''variations'', YList [YStr '' quick '']), (''mode'', YInt 2)]"
  let ?overlay2 = "[(''directives'',
                     YMap ([(''--q'', YInt 3)] @ (''fast, slow'', YMap ?body2)
                             # [(''--r'', YNull)]))]"
  let ?base2 = "[(''directives'', YMap [(''slow'', YInt 0)])]"
  have m: "merge_configs [] ?overlay
           = Inr [(''directives'',
                   YMap [(''--x'', YMap [(''mode'', YInt 1)]), (''--y'', YMap [(''mode'', YInt 1)]),
                         (''--z'', YMap [(''mode'', YInt 1)])])]"
    by code_simp
  have o: "dict_get ?overlay ''directives'' = Some (YMap ([] @ (''--x, --y'', YMap ?body) # []))"
    by (simp add: dict_get_def)
  have b: "base_directives [] = YMap []"
    by (simp add: base_directives_def dict_get_def)
  have c: "clean_directive_config ?body = [(''mode'', YInt 1)]"
    by (simp add: clean_directive_config_def)
  have keys: "set (expand_flag_keys ''--x, --y'' (YMap ?body)) = {''--x'', ''--y'', ''--z''}"
    by code_simp
  have parts: "''--x, --y'' = [] @ compound_key [(''--x'', '', ''), (''--y'', [])]
               \<and> list_all is_sep [] \<and> separated [(''--x'', '', ''), (''--y'', [])]
               \<and> [(''--x'', '', ''), (''--y'', [])] \<noteq> []"
    by code_simp
  note first = alias_fan_out [OF o b]
  note first_keys = first [THEN conjunct1, THEN bspec]
  note first_compound = first [THEN conjunct2, THEN conjunct2, THEN conjunct2, THEN conjunct1,
      THEN spec, THEN spec, THEN mp]
  have "set (raw_key_tokens ''--x, --y'') = fst ` set [(''--x'', '', ''), (''--y'', [])]"
    using parts by (rule first_compound)
  then have t1: "set (raw_key_tokens ''--x, --y'') = {''--x'', ''--y''}" by simp
  have z: "\<exists>ds. dict_get
              [(''directives'',
                YMap [(''--x'', YMap [(''mode'', YInt 1)]), (''--y'', YMap [(''mode'', YInt 1)]),
                      (''--z'', YMap [(''mode'', YInt 1)])])] ''directives'' = Some (YMap ds)
         \<and> dict_get ds k = Some (YMap [(''mode'', YInt 1)])"
    if "k \<in> {''--x'', ''--y'', ''--z''}" for k
  proof -
    have "k \<in> set (expand_flag_keys ''--x, --y'' (YMap ?body))" using that keys by simp
    then have "(\<forall>e \<in> set []. k \<notin> entry_keys e) \<longrightarrow>
               (\<forall>result. merge_configs [] ?overlay = Inr result \<longrightarrow>
                  (\<exists>ds. dict_get result ''directives'' = Some (YMap ds)
                      \<and> dict_get ds k = Some (YMap (clean_directive_config ?body))))"
      by (rule first_keys [THEN conjunct2])
    then show ?thesis using m c by simp
  qed
  have o2: "dict_get ?overlay2 ''directives''
              = Some (YMap ([(''--q'', YInt 3)] @ (''fast, slow'', YMap ?body2)
                              # [(''--r'', YNull)]))"
    by (simp add: dict_get_def)
  have b2: "base_directives ?base2 = YMap [(''slow'', YInt 0)]"
    by (simp add: base_directives_def dict_get_def)
  have c2: "clean_directive_config ?body2 = [(''mode'', YInt 2)]"
    by (simp add: clean_directive_config_def)
  have keys2: "set (expand_flag_keys ''fast, slow'' (YMap ?body2)) = {''fast'', ''slow'', ''quick''}"
    by code_simp
  have none: "findall_flags ''fast, slow'' = []" by code_simp
  have pieces: "''fast, slow'' = joined ''fast'' [(CHR '','', '' slow'')]
     \<and> (\<forall>p \<in> set (''fast'' # map snd [(CHR '','', '' slow'')]).
           CHR '','' \<notin> set p \<and> CHR ''|'' \<notin> set p)
     \<and> (\<forall>c \<in> fst ` set [(CHR '','', '' slow'')]. c = CHR '','' \<or> c = CHR ''|'')
     \<and> \<not> (\<exists>a c b. ''fast, slow'' = a @ CHR ''-'' # CHR ''-'' # c # b \<and> \<not> is_sep c)"
    using none findall_flags_nonempty_iff [of "''fast, slow''"] by simp
  note second = alias_fan_out [OF o2 b2]
  note second_keys = second [THEN conjunct1, THEN bspec]
  note second_pieces = second [THEN conjunct2, THEN conjunct2, THEN conjunct2, THEN conjunct2,
      THEN conjunct1, THEN spec, THEN spec, THEN mp]
  have "set (raw_key_tokens ''fast, slow'')
          = {strip p | p. p \<in> set (''fast'' # map snd [(CHR '','', '' slow'')]) \<and> strip p \<noteq> []}"
    using pieces by (rule second_pieces)
  moreover have "strip ''fast'' = ''fast''" "strip '' slow'' = ''slow''"
    by (simp_all add: strip_def is_space_def)
  ultimately have t2: "set (raw_key_tokens ''fast, slow'') = {''fast'', ''slow''}"
    by (auto intro: exI [of _ "''fast''"] exI [of _ "'' slow''"])
  have q: "\<exists>mid. merge_directives (YMap [(''slow'', YInt 0)])
                ([(''--q'', YInt 3)] @ [(''fast, slow'', YMap ?body2)]) = Inr (YMap mid)
           \<and> dict_get mid k = Some (YMap [(''mode'', YInt 2)])"
    if "k \<in> {''fast'', ''slow'', ''quick''}" for k
  proof -
    have "k \<in> set (expand_flag_keys ''fast, slow'' (YMap ?body2))" using that keys2 by simp
    then have "\<exists>mid. merge_directives (YMap [(''slow'', YInt 0)])
                ([(''--q'', YInt 3)] @ [(''fast, slow'', YMap ?body2)]) = Inr (YMap mid)
           \<and> dict_get mid k = Some (YMap (clean_directive_config ?body2))"
      by (rule second_keys [THEN conjunct1])
    then show ?thesis using c2 by simp
  qed
  show ?thesis
    using t1 t2 m z [of "''--z''"] z [of "''--y''"] q [of "''slow''"] q [of "''quick''"]
    by simp
qed

text \<open>
  The claim as it is stated fails: the entry \<open>--y: null\<close> that follows deletes the key
  \<open>--y\<close> again, and the alias strings \<open>" --z "\<close> and \<open>"  "\<close> are not keys of the result: the
  first is trimmed to \<open>--z\<close>, the second is blank and left out.
\<close>

theorem alias_fan_out_counterexample:
  "merge_configs []
     [(''directives'',
       YMap [(''--x, --y'', YMap [(''aliases'', YList [YStr '' --z '', YStr ''  '']),
                                  (''mode'', YInt 1)]),
             (''--y'', YNull)])]
   = Inr [(''directives'',
           YMap [(''--x'', YMap [(''mode'', YInt 1)]), (''--z'', YMap [(''mode'', YInt 1)])])]
   \<and> dict_get [(''--x'', YMap [(''mode'', YInt 1)]), (''--z'', YMap [(''mode'', YInt 1)])]
        ''--y'' = None
   \<and> dict_get [(''--x'', YMap [(''mode'', YInt 1)]), (''--z'', YMap [(''mode'', YInt 1)])]
        '' --z '' = None
   \<and> dict_get [(''--x'', YMap [(''mode'', YInt 1)]), (''--z'', YMap [(''mode'', YInt 1)])]
        ''  '' = None"
  by code_simp

section \<open>A failure in the chain\<close>



















end
